theory Spec2Isabelle
  imports Complex_Main "HOL-Library.Signed_Division" "HOL-Library.Monad_Syntax"
begin

section \<open>Values of type double\<close>

text \<open>
  A \<open>double\<close> is a finite value, one of the two infinities, or not-a-number.
  The finite values of the model are all real numbers; the binary64 values are
  those left unchanged by \<open>fl\<close> below.  The two zeros of binary64 are
  identified: the sign of a zero only selects which infinity a division by
  zero gives, and nothing proved here depends on that sign.
\<close>

datatype double = Fin real | PInf | NInf | NaN

fun is_finite :: "double \<Rightarrow> bool" where
  "is_finite (Fin x) = True"
| "is_finite PInf = False"
| "is_finite NInf = False"
| "is_finite NaN = False"

text \<open>
  Every arithmetic operation computes the exact result of two finite operands
  and hands it to a rounding function, which yields the \<open>double\<close> that is
  stored.  \<open>exact\<close> keeps the real number (arithmetic without rounding
  error); \<open>binary64\<close> rounds to the nearest value with a 53 bit significand,
  ties to the even significand, with gradual underflow below \<open>2^-1022\<close> and
  overflow to an infinity from \<open>2^1024\<close> on, which is what the compiled
  program does.
\<close>

type_synonym rounding = "real \<Rightarrow> double"

definition exact :: rounding where
  "exact x = Fin x"

definition pow2 :: "int \<Rightarrow> real" where
  "pow2 e = (if 0 \<le> e then 2 ^ nat e else inverse (2 ^ nat (- e)))"

definition round_even :: "real \<Rightarrow> int" where
  "round_even x =
     (let n = \<lfloor>x\<rfloor>; d = x - of_int n
      in if d < 1 / 2 then n
         else if 1 / 2 < d then n + 1
         else if even n then n else n + 1)"

definition exponent :: "real \<Rightarrow> int" where
  "exponent x = max (- 1022) \<lfloor>log 2 \<bar>x\<bar>\<rfloor>"

definition ulp :: "real \<Rightarrow> real" where
  "ulp x = pow2 (exponent x - 52)"

definition fl :: "real \<Rightarrow> real" where
  "fl x = (if x = 0 then 0 else of_int (round_even (x / ulp x)) * ulp x)"

definition binary64 :: rounding where
  "binary64 x =
     (let y = fl x
      in if \<bar>y\<bar> < pow2 1024 then Fin y else if 0 < y then PInf else NInf)"

fun dneg :: "double \<Rightarrow> double" where
  "dneg (Fin x) = Fin (- x)"
| "dneg PInf = NInf"
| "dneg NInf = PInf"
| "dneg NaN = NaN"

fun dabs :: "double \<Rightarrow> double" where
  "dabs (Fin x) = Fin \<bar>x\<bar>"
| "dabs PInf = PInf"
| "dabs NInf = PInf"
| "dabs NaN = NaN"

fun dfloor :: "double \<Rightarrow> double" where
  "dfloor (Fin x) = Fin (of_int \<lfloor>x\<rfloor>)"
| "dfloor d = d"

fun dadd :: "rounding \<Rightarrow> double \<Rightarrow> double \<Rightarrow> double" where
  "dadd r (Fin x) (Fin y) = r (x + y)"
| "dadd r NaN b = NaN"
| "dadd r a NaN = NaN"
| "dadd r PInf NInf = NaN"
| "dadd r NInf PInf = NaN"
| "dadd r PInf b = PInf"
| "dadd r NInf b = NInf"
| "dadd r a PInf = PInf"
| "dadd r a NInf = NInf"

fun dsub :: "rounding \<Rightarrow> double \<Rightarrow> double \<Rightarrow> double" where
  "dsub r (Fin x) (Fin y) = r (x - y)"
| "dsub r NaN b = NaN"
| "dsub r a NaN = NaN"
| "dsub r PInf PInf = NaN"
| "dsub r NInf NInf = NaN"
| "dsub r PInf b = PInf"
| "dsub r NInf b = NInf"
| "dsub r a PInf = NInf"
| "dsub r a NInf = PInf"

text \<open>The infinity with the sign of \<open>s\<close>, for \<open>s \<noteq> 0\<close>.\<close>

definition inf_of_sign :: "real \<Rightarrow> double" where
  "inf_of_sign s = (if 0 < s then PInf else NInf)"

fun dmul :: "rounding \<Rightarrow> double \<Rightarrow> double \<Rightarrow> double" where
  "dmul r (Fin x) (Fin y) = r (x * y)"
| "dmul r NaN b = NaN"
| "dmul r a NaN = NaN"
| "dmul r (Fin x) PInf = (if x = 0 then NaN else inf_of_sign x)"
| "dmul r (Fin x) NInf = (if x = 0 then NaN else inf_of_sign (- x))"
| "dmul r PInf (Fin y) = (if y = 0 then NaN else inf_of_sign y)"
| "dmul r NInf (Fin y) = (if y = 0 then NaN else inf_of_sign (- y))"
| "dmul r PInf PInf = PInf"
| "dmul r PInf NInf = NInf"
| "dmul r NInf PInf = NInf"
| "dmul r NInf NInf = PInf"

fun ddiv :: "rounding \<Rightarrow> double \<Rightarrow> double \<Rightarrow> double" where
  "ddiv r (Fin x) (Fin y) =
     (if y = 0 then (if x = 0 then NaN else inf_of_sign x) else r (x / y))"
| "ddiv r NaN b = NaN"
| "ddiv r a NaN = NaN"
| "ddiv r (Fin x) PInf = Fin 0"
| "ddiv r (Fin x) NInf = Fin 0"
| "ddiv r PInf (Fin y) = (if 0 \<le> y then PInf else NInf)"
| "ddiv r NInf (Fin y) = (if 0 \<le> y then NInf else PInf)"
| "ddiv r PInf b = NaN"
| "ddiv r NInf b = NaN"

text \<open>Comparisons: every comparison with not-a-number is false.\<close>

fun dle :: "double \<Rightarrow> double \<Rightarrow> bool" where
  "dle (Fin x) (Fin y) = (x \<le> y)"
| "dle NaN b = False"
| "dle a NaN = False"
| "dle NInf b = True"
| "dle a PInf = True"
| "dle a b = False"

fun dlt :: "double \<Rightarrow> double \<Rightarrow> bool" where
  "dlt (Fin x) (Fin y) = (x < y)"
| "dlt NaN b = False"
| "dlt a NaN = False"
| "dlt PInf b = False"
| "dlt a NInf = False"
| "dlt a b = True"

fun deq :: "double \<Rightarrow> double \<Rightarrow> bool" where
  "deq NaN b = False"
| "deq a NaN = False"
| "deq a b = (a = b)"


section \<open>Integer types and conversions\<close>

text \<open>
  \<open>int\<close> has 32 bits and \<open>long\<close> 64.  Signed overflow, division by zero and the
  conversion of a \<open>double\<close> that does not fit are undefined behaviour: the
  model returns \<open>None\<close> there.  A \<open>double\<close> is converted to an integer type by
  dropping its fraction.
\<close>

definition trunc :: "real \<Rightarrow> int" where
  "trunc x = (if 0 \<le> x then \<lfloor>x\<rfloor> else \<lceil>x\<rceil>)"

definition INT32_MAX :: int where
  "INT32_MAX = 2147483647"

definition int_ok :: "int \<Rightarrow> bool" where
  "int_ok z = (- 2147483648 \<le> z \<and> z \<le> INT32_MAX)"

definition long_ok :: "int \<Rightarrow> bool" where
  "long_ok z = (- 9223372036854775808 \<le> z \<and> z \<le> 9223372036854775807)"

definition int_of :: "int \<Rightarrow> int option" where
  "int_of z = (if int_ok z then Some z else None)"

definition long_of :: "int \<Rightarrow> int option" where
  "long_of z = (if long_ok z then Some z else None)"

definition double_to_int :: "double \<Rightarrow> int option" where
  "double_to_int d = (case d of Fin x \<Rightarrow> int_of (trunc x) | _ \<Rightarrow> None)"

definition double_to_long :: "double \<Rightarrow> int option" where
  "double_to_long d = (case d of Fin x \<Rightarrow> long_of (trunc x) | _ \<Rightarrow> None)"

text \<open>The conversion \<open>int(...)\<close> of a \<open>long\<close> keeps the low 32 bits.\<close>

definition long_to_int :: "int \<Rightarrow> int" where
  "long_to_int z = (z + 2147483648) mod 4294967296 - 2147483648"

section \<open>The terminal grapher (src/include/Calculus.h)\<close>

type_synonym Func = "double \<Rightarrow> double"

record Grapher =
  mFunctions :: "(Func \<times> char) list"
  mTermWidth :: int
  mTermHeight :: int
  mXrange :: "double \<times> double"
  mYrange :: "double \<times> double"

definition Grapher_default :: Grapher where
  "Grapher_default =
     \<lparr> mFunctions = [], mTermWidth = 80, mTermHeight = 24,
       mXrange = (Fin (- 10), Fin 10), mYrange = (Fin (- 10), Fin 10) \<rparr>"

definition setOutputDimensions :: "Grapher \<Rightarrow> int \<Rightarrow> int \<Rightarrow> Grapher" where
  "setOutputDimensions g width height = g\<lparr> mTermWidth := width, mTermHeight := height \<rparr>"

definition setDomain :: "Grapher \<Rightarrow> double \<Rightarrow> double \<Rightarrow> Grapher" where
  "setDomain g from to = g\<lparr> mXrange := (from, to) \<rparr>"

definition setRange :: "Grapher \<Rightarrow> double \<Rightarrow> double \<Rightarrow> Grapher" where
  "setRange g from to = g\<lparr> mYrange := (from, to) \<rparr>"

definition addFunction :: "Grapher \<Rightarrow> Func \<Rightarrow> char \<Rightarrow> Grapher" where
  "addFunction g fx funcChar = g\<lparr> mFunctions := mFunctions g @ [(fx, funcChar)] \<rparr>"

definition clearFunctions :: "Grapher \<Rightarrow> Grapher" where
  "clearFunctions g = g\<lparr> mFunctions := [] \<rparr>"

text \<open>
  \<open>mMap\<close> takes and returns \<open>long\<close>: all of its arithmetic is integer
  arithmetic, and \<open>/\<close> is the division that truncates towards zero.
\<close>

definition mMap :: "int \<Rightarrow> int \<Rightarrow> int \<Rightarrow> int \<Rightarrow> int \<Rightarrow> int option" where
  "mMap value lower upper newlower newupper =
     do {
       a \<leftarrow> long_of (value - lower);
       b \<leftarrow> long_of (newupper - newlower);
       c \<leftarrow> long_of (a * b);
       d \<leftarrow> long_of (upper - lower);
       q \<leftarrow> (if d = 0 then None else long_of (c sdiv d));
       long_of (q + newlower)
     }"

text \<open>
  The three lambdas of \<open>display\<close>.  Their \<open>double\<close> arguments are converted to
  \<open>long\<close> at the call of \<open>mMap\<close>; \<open>pixelToX\<close> converts the \<open>long\<close> result
  to \<open>double\<close>, the other two to \<open>int\<close>.
\<close>

definition pixelToX :: "rounding \<Rightarrow> Grapher \<Rightarrow> int \<Rightarrow> double option" where
  "pixelToX r g val =
     do {
       w \<leftarrow> int_of (mTermWidth g - 1);
       lo \<leftarrow> double_to_long (fst (mXrange g));
       hi \<leftarrow> double_to_long (snd (mXrange g));
       x \<leftarrow> mMap val 0 w lo hi;
       Some (r (of_int x))
     }"

definition xToPixel :: "Grapher \<Rightarrow> double \<Rightarrow> int option" where
  "xToPixel g val =
     do {
       v \<leftarrow> double_to_long val;
       lo \<leftarrow> double_to_long (fst (mXrange g));
       hi \<leftarrow> double_to_long (snd (mXrange g));
       p \<leftarrow> mMap v lo hi 0 (mTermWidth g);
       Some (long_to_int p)
     }"

definition yToPixel :: "Grapher \<Rightarrow> double \<Rightarrow> int option" where
  "yToPixel g val =
     do {
       v \<leftarrow> double_to_long val;
       lo \<leftarrow> double_to_long (fst (mYrange g));
       hi \<leftarrow> double_to_long (snd (mYrange g));
       p \<leftarrow> mMap v lo hi (mTermHeight g) 0;
       Some (long_to_int p)
     }"

text \<open>
  The screen is \<open>char screen[mTermHeight][mTermWidth]\<close>.  A write outside of it
  is undefined behaviour (\<open>None\<close>).
\<close>

type_synonym screen = "char list list"

definition put :: "Grapher \<Rightarrow> screen \<Rightarrow> int \<Rightarrow> int \<Rightarrow> char \<Rightarrow> screen option" where
  "put g scr row col c =
     (if 0 \<le> row \<and> row < mTermHeight g \<and> 0 \<le> col \<and> col < mTermWidth g
      then Some (scr[nat row := (scr ! nat row)[nat col := c]])
      else None)"

fun put_rows :: "Grapher \<Rightarrow> screen \<Rightarrow> int list \<Rightarrow> int \<Rightarrow> char \<Rightarrow> screen option" where
  "put_rows g scr [] col c = Some scr"
| "put_rows g scr (j # js) col c =
     do { scr' \<leftarrow> put g scr j col c; put_rows g scr' js col c }"

text \<open>
  The rows visited by \<open>for (j = last_pixel_y; j != pixel_y; j += \<plusminus>1)\<close>:
  from \<open>last_pixel_y\<close> towards \<open>pixel_y\<close>, which is left out.
\<close>

definition rows_between :: "int \<Rightarrow> int \<Rightarrow> int list" where
  "rows_between last_pixel_y pixel_y =
     (if last_pixel_y > pixel_y then rev [pixel_y + 1 .. last_pixel_y]
      else [last_pixel_y .. pixel_y - 1])"

text \<open>One pass of the loop over the columns, for the function \<open>fx\<close> drawn with \<open>c\<close>.\<close>

definition plot_column ::
  "rounding \<Rightarrow> Grapher \<Rightarrow> Func \<Rightarrow> char \<Rightarrow> int \<Rightarrow> screen \<times> int \<Rightarrow> (screen \<times> int) option" where
  "plot_column r g fx c i st =
     (case st of (scr, last_pixel_y) \<Rightarrow>
       do {
         val \<leftarrow> pixelToX r g i;
         let result = fx val;
         if dlt result (fst (mYrange g)) \<or> dlt (snd (mYrange g)) result
         then Some (scr, last_pixel_y)
         else do {
           pixel_y \<leftarrow> yToPixel g result;
           scr1 \<leftarrow>
             (if (last_pixel_y > pixel_y \<or> last_pixel_y < pixel_y) \<and> last_pixel_y \<noteq> INT32_MAX
              then put_rows g scr (rows_between last_pixel_y pixel_y) i c
              else Some scr);
           scr2 \<leftarrow> put g scr1 pixel_y i c;
           Some (scr2, pixel_y)
         }
       })"

fun plot_columns ::
  "rounding \<Rightarrow> Grapher \<Rightarrow> Func \<Rightarrow> char \<Rightarrow> int list \<Rightarrow> screen \<times> int \<Rightarrow> (screen \<times> int) option" where
  "plot_columns r g fx c [] st = Some st"
| "plot_columns r g fx c (i # is) st =
     do { st' \<leftarrow> plot_column r g fx c i st; plot_columns r g fx c is st' }"

fun plot_functions :: "rounding \<Rightarrow> Grapher \<Rightarrow> (Func \<times> char) list \<Rightarrow> screen \<Rightarrow> screen option" where
  "plot_functions r g [] scr = Some scr"
| "plot_functions r g ((fx, c) # fs) scr =
     do {
       st \<leftarrow> plot_columns r g fx c [0 .. mTermWidth g - 1] (scr, INT32_MAX);
       plot_functions r g fs (fst st)
     }"

text \<open>
  \<open>display\<close>: the text written to the standard output, one line for each row.
  The screen is an array of variable length, whose bounds must be positive.
\<close>

definition display :: "rounding \<Rightarrow> Grapher \<Rightarrow> string option" where
  "display r g =
     do {
       _ \<leftarrow> (if 0 < mTermHeight g \<and> 0 < mTermWidth g then Some () else None);
       let scr0 = replicate (nat (mTermHeight g)) (replicate (nat (mTermWidth g)) CHR '' '');
       xaxis \<leftarrow> yToPixel g (Fin 0);
       yaxis \<leftarrow> xToPixel g (Fin 0);
       let scr1 = (if yaxis \<ge> 0 \<and> yaxis < mTermWidth g
                   then map (\<lambda>row. row[nat yaxis := CHR ''|'']) scr0 else scr0);
       let scr2 = (if xaxis \<ge> 0 \<and> xaxis < mTermHeight g
                   then scr1[nat xaxis := replicate (nat (mTermWidth g)) CHR ''-''] else scr1);
       scr3 \<leftarrow> plot_functions r g (mFunctions g) scr2;
       Some (concat (map (\<lambda>row. row @ [CHR 0x0A]) scr3))
     }"

text \<open>
  The map from a pixel column to the domain as the specification words it: the
  affine map of the real numbers that sends \<open>0\<close> to \<open>x_min\<close> and \<open>width - 1\<close> to
  \<open>x_max\<close>.
\<close>

definition column_to_x_spec :: "real \<Rightarrow> real \<Rightarrow> real \<Rightarrow> real \<Rightarrow> real" where
  "column_to_x_spec x_min x_max width i = x_min + i * (x_max - x_min) / (width - 1)"

section \<open>The numerical engine (src/Calculus.h and src/include/Calculus.h)\<close>

text \<open>
  The repository holds two versions of the header: \<open>Calculus_h\<close> stands for
  src/Calculus.h and \<open>include_Calculus_h\<close> for src/include/Calculus.h.  They
  differ in the constant \<open>LARGE\<close> and in \<open>integral_definite\<close>; the functions
  below take the header as a parameter where they depend on it.  A function
  value \<open>Func\<close> is a pure function; the lifetime of the objects that the
  lambdas capture and the depth of the call stack are not part of the model.
\<close>

datatype header = Calculus_h | include_Calculus_h

definition LARGE :: "header \<Rightarrow> real" where
  "LARGE h = (case h of Calculus_h \<Rightarrow> 1000000 | include_Calculus_h \<Rightarrow> 10000)"

definition SMALL :: "rounding \<Rightarrow> header \<Rightarrow> double" where
  "SMALL r h = ddiv r (Fin 1) (Fin (LARGE h))"

text \<open>
  \<open>const int ACCURACY = std::log10(LARGE)-1\<close>: the decimal logarithm of \<open>LARGE\<close>,
  which is a whole number for both headers, less one.
\<close>

definition ACCURACY :: "header \<Rightarrow> nat" where
  "ACCURACY h = nat (trunc (log 10 (LARGE h) - 1))"

text \<open>
  \<open>round\<close>: \<open>int prod = std::pow(10, places)\<close> converts the power, a \<open>double\<close>,
  to \<open>int\<close>, which is undefined when it does not fit.
\<close>

definition round_d :: "rounding \<Rightarrow> double \<Rightarrow> nat \<Rightarrow> double option" where
  "round_d r val places =
     do {
       prod \<leftarrow> double_to_int (r (10 ^ places));
       Some (ddiv r (dfloor (dadd r (dmul r val (Fin (of_int prod))) (Fin (1 / 2))))
                    (Fin (of_int prod)))
     }"

text \<open>
  The same rounding as the specification words it: scale by \<open>10^places\<close>, add
  \<open>0.5\<close>, floor, rescale.
\<close>

definition round_spec :: "rounding \<Rightarrow> double \<Rightarrow> nat \<Rightarrow> double" where
  "round_spec r val places =
     ddiv r (dfloor (dadd r (dmul r val (Fin (10 ^ places))) (Fin (1 / 2)))) (Fin (10 ^ places))"

text \<open>
  \<open>fx\<close> is a \<open>std::function\<close>, which may carry state of its own, so the body of
  the lambda returned by \<open>derivative\<close> is translated once, over functions that
  thread a state \<open>'s\<close> through their calls.  The body is polymorphic in the state: it
  can change it in no other way than by calling \<open>fx\<close>.  The order in which the
  two operands of the subtraction are evaluated is not fixed by the language;
  here the left one comes first.
\<close>

type_synonym 's StateFunc = "double \<Rightarrow> 's \<Rightarrow> double \<times> 's"

definition derivative_body ::
  "rounding \<Rightarrow> header \<Rightarrow> 's StateFunc \<Rightarrow> double \<Rightarrow> 's \<Rightarrow> double option \<times> 's" where
  "derivative_body r h fx x s =
     (case fx (dadd r x (SMALL r h)) s of (a, s1) \<Rightarrow>
      case fx x s1 of (b, s2) \<Rightarrow>
        (round_d r (dmul r (dsub r a b) (Fin (LARGE h))) (ACCURACY h), s2))"

text \<open>A function of the reals has no state.\<close>

definition stateless :: "Func \<Rightarrow> unit StateFunc" where
  "stateless fx x u = (fx x, u)"

definition derivative :: "rounding \<Rightarrow> header \<Rightarrow> Func \<Rightarrow> double \<Rightarrow> double option" where
  "derivative r h fx x = fst (derivative_body r h (stateless fx) x ())"

text \<open>
  To observe the calls of \<open>fx\<close>, any function is wrapped so that it appends the
  argument of each call to a log kept beside its own state.
\<close>

definition logged :: "'s StateFunc \<Rightarrow> ('s \<times> double list) StateFunc" where
  "logged fx x st = (case fx x (fst st) of (y, s') \<Rightarrow> (y, (s', snd st @ [x])))"

text \<open>
  The loop of \<open>integral_definite\<close>.  It need not end (the step can be absorbed
  by a large \<open>i\<close>), so it is a partial function: \<open>None\<close> is the loop that never
  exits.
\<close>

partial_function (option) integral_loop ::
  "rounding \<Rightarrow> header \<Rightarrow> Func \<Rightarrow> double \<Rightarrow> double \<Rightarrow> double \<Rightarrow> double option" where
  "integral_loop r h fx bound i ret =
     (if dle i bound
      then integral_loop r h fx bound (dadd r i (SMALL r h))
             (dadd r ret (dmul r (fx i) (SMALL r h)))
      else Some ret)"

definition integral_definite ::
  "rounding \<Rightarrow> header \<Rightarrow> Func \<Rightarrow> double \<Rightarrow> double \<Rightarrow> double option" where
  "integral_definite r h fx lower upper =
     (case h of
        Calculus_h \<Rightarrow>
          do {
            ret \<leftarrow> integral_loop r h fx upper lower (Fin 0);
            round_d r ret (ACCURACY h)
          }
      | include_Calculus_h \<Rightarrow>
          do {
            ret \<leftarrow> integral_loop r h fx (dabs upper) lower (Fin 0);
            let sign = (if dlt upper (Fin 0) then - 1 else 1 :: int);
            round_d r (dmul r ret (Fin (of_int sign))) (ACCURACY h)
          })"

definition integral :: "rounding \<Rightarrow> header \<Rightarrow> Func \<Rightarrow> double \<Rightarrow> double \<Rightarrow> double option" where
  "integral r h fx valid_value = (\<lambda>x. integral_definite r h fx valid_value x)"

fun roots :: "rounding \<Rightarrow> header \<Rightarrow> Func \<Rightarrow> double \<Rightarrow> nat \<Rightarrow> double option" where
  "roots r h fx initial iter =
     (if iter = 0 then Some initial
      else do {
        d \<leftarrow> derivative r h fx initial;
        roots r h fx (dsub r initial (ddiv r (fx initial) d)) (iter - 1)
      })"

text \<open>
  \<open>iterate\<close> recurses on a \<open>double\<close> counter, and need not return: \<open>None\<close> is the
  recursion that never reaches \<open>times <= 0\<close>.
\<close>

partial_function (option) iterate ::
  "rounding \<Rightarrow> Func \<Rightarrow> double \<Rightarrow> double \<Rightarrow> double option" where
  "iterate r fx times_d val =
     (if dle times_d (Fin 0) then Some val
      else Option.bind (iterate r fx (dsub r times_d (Fin 1)) val) (\<lambda>y. Some (fx y)))"

definition iterated :: "rounding \<Rightarrow> Func \<Rightarrow> double \<Rightarrow> double \<Rightarrow> double option" where
  "iterated r fx times_d = (\<lambda>x. iterate r fx times_d x)"

text \<open>
  One step of Newton's method as the specification words it:
  \<open>x - fx(x) / derivative(fx)(x)\<close>.
\<close>

definition newton_step :: "rounding \<Rightarrow> header \<Rightarrow> Func \<Rightarrow> double \<Rightarrow> double option" where
  "newton_step r h fx x =
     map_option (\<lambda>d. dsub r x (ddiv r (fx x) d)) (derivative r h fx x)"

text \<open>
  The integral as the specification words it: the grid starts at \<open>lower\<close> and
  steps by \<open>SMALL\<close>; \<open>fx\<close> times \<open>SMALL\<close> is summed over its first \<open>n\<close> points.
\<close>

definition grid_point :: "rounding \<Rightarrow> header \<Rightarrow> double \<Rightarrow> nat \<Rightarrow> double" where
  "grid_point r h lower k = ((\<lambda>i. dadd r i (SMALL r h)) ^^ k) lower"

definition riemann_sum :: "rounding \<Rightarrow> header \<Rightarrow> Func \<Rightarrow> double \<Rightarrow> nat \<Rightarrow> double" where
  "riemann_sum r h fx lower n =
     foldl (\<lambda>ret k. dadd r ret (dmul r (fx (grid_point r h lower k)) (SMALL r h))) (Fin 0) [0..<n]"

text \<open>The exact value of the sum over the first \<open>k\<close> points \<open>0, 1/10000, ...\<close>.\<close>

definition triangle_sum :: "nat \<Rightarrow> real" where
  "triangle_sum k = real k * (real k - 1) / 200000000"

section \<open>Properties of the rounding to binary64\<close>

subsection \<open>Powers of two and exponents\<close>

lemma pow2_powr: "pow2 e = 2 powr (of_int e)"
proof (cases "0 \<le> e")
  case True
  then have "2 powr (of_int e) = (2::real) powr (real (nat e))" by simp
  also have "\<dots> = 2 ^ nat e" by (simp add: powr_realpow)
  finally show ?thesis using True by (simp add: pow2_def)
next
  case False
  then have "2 powr (of_int e) = (2::real) powr (- real (nat (- e)))" by simp
  also have "\<dots> = inverse (2 ^ nat (- e))" by (simp add: powr_minus powr_realpow)
  finally show ?thesis using False by (simp add: pow2_def)
qed

lemma pow2_pos [simp]: "0 < pow2 e" by (simp add: pow2_powr)

lemma pow2_nonneg [simp]: "0 \<le> pow2 e" by (simp add: pow2_powr)

lemma abs_pow2 [simp]: "\<bar>pow2 e\<bar> = pow2 e" by simp

lemma pow2_add: "pow2 (a + b) = pow2 a * pow2 b"
  by (simp add: pow2_powr powr_add)

lemma pow2_diff: "pow2 (a - b) = pow2 a / pow2 b"
  by (simp add: pow2_powr powr_diff)

lemma pow2_less_iff [simp]: "pow2 a < pow2 b \<longleftrightarrow> a < b"
  by (simp add: pow2_powr)

lemma pow2_le_iff [simp]: "pow2 a \<le> pow2 b \<longleftrightarrow> a \<le> b"
  by (simp add: pow2_powr)

lemma pow2_nat: "pow2 (int n) = 2 ^ n" by (simp add: pow2_def)

lemma pow2_0 [simp]: "pow2 0 = 1" by (simp add: pow2_def)

lemma floor_log2_eq:
  assumes "pow2 k \<le> \<bar>x\<bar>" "\<bar>x\<bar> < pow2 (k + 1)"
  shows "\<lfloor>log 2 \<bar>x\<bar>\<rfloor> = k"
proof -
  have pos: "0 < \<bar>x\<bar>" using assms(1) pow2_pos [of k] by linarith
  have "of_int k \<le> log 2 \<bar>x\<bar>"
    using assms(1) pos by (simp add: pow2_powr le_log_iff)
  moreover have "log 2 \<bar>x\<bar> < of_int (k + 1)"
    using assms(2) pos by (simp add: pow2_powr log_less_iff)
  ultimately show ?thesis by (simp add: floor_eq_iff)
qed

lemma floor_log2_bounds:
  assumes "x \<noteq> 0"
  shows "pow2 \<lfloor>log 2 \<bar>x\<bar>\<rfloor> \<le> \<bar>x\<bar>" "\<bar>x\<bar> < pow2 (\<lfloor>log 2 \<bar>x\<bar>\<rfloor> + 1)"
proof -
  have pos: "0 < \<bar>x\<bar>" using assms by simp
  have "of_int \<lfloor>log 2 \<bar>x\<bar>\<rfloor> \<le> log 2 \<bar>x\<bar>" by simp
  then show "pow2 \<lfloor>log 2 \<bar>x\<bar>\<rfloor> \<le> \<bar>x\<bar>"
    using pos by (simp add: pow2_powr le_log_iff del: of_int_floor_le)
  have "log 2 \<bar>x\<bar> < of_int (\<lfloor>log 2 \<bar>x\<bar>\<rfloor> + 1)" by linarith
  then show "\<bar>x\<bar> < pow2 (\<lfloor>log 2 \<bar>x\<bar>\<rfloor> + 1)"
    using pos by (simp add: pow2_powr log_less_iff del: of_int_add)
qed

lemma exponent_eq:
  assumes "pow2 e \<le> \<bar>x\<bar>" "\<bar>x\<bar> < pow2 (e + 1)" "- 1022 \<le> e"
  shows "exponent x = e"
  using floor_log2_eq [OF assms(1,2)] assms(3) by (simp add: exponent_def)

lemma exponent_ge: "- 1022 \<le> exponent x" by (simp add: exponent_def)

lemma exponent_less:
  assumes "x \<noteq> 0" "\<bar>x\<bar> < pow2 m" "- 1022 < m"
  shows "exponent x < m"
proof -
  have "pow2 \<lfloor>log 2 \<bar>x\<bar>\<rfloor> < pow2 m"
    using floor_log2_bounds(1) [OF assms(1)] assms(2) by linarith
  then have "\<lfloor>log 2 \<bar>x\<bar>\<rfloor> < m" by simp
  then show ?thesis using assms(3) by (simp add: exponent_def)
qed

lemma exponent_above: "x \<noteq> 0 \<Longrightarrow> \<bar>x\<bar> < pow2 (exponent x + 1)"
proof -
  assume x: "x \<noteq> 0"
  have "\<lfloor>log 2 \<bar>x\<bar>\<rfloor> + 1 \<le> exponent x + 1" by (simp add: exponent_def)
  then have "pow2 (\<lfloor>log 2 \<bar>x\<bar>\<rfloor> + 1) \<le> pow2 (exponent x + 1)" by (simp only: pow2_le_iff)
  then show ?thesis using floor_log2_bounds(2) [OF x] by linarith
qed

lemma exponent_nonneg: "1 \<le> t \<Longrightarrow> 0 \<le> exponent t"
proof -
  assume "1 \<le> t"
  then have "0 \<le> log 2 \<bar>t\<bar>" by simp
  then have "0 \<le> \<lfloor>log 2 \<bar>t\<bar>\<rfloor>" by simp
  then show ?thesis by (simp add: exponent_def)
qed

lemma exponent_below: "t \<noteq> 0 \<Longrightarrow> - 1022 \<le> \<lfloor>log 2 \<bar>t\<bar>\<rfloor> \<Longrightarrow> pow2 (exponent t) \<le> \<bar>t\<bar>"
  using floor_log2_bounds(1) [of t] by (simp add: exponent_def max_def)

lemma ulp_pos [simp]: "0 < ulp x" by (simp add: ulp_def)

lemma ulp_nonneg [simp]: "0 \<le> ulp x" by (simp add: ulp_def)

lemma ulp_neq0 [simp]: "ulp x \<noteq> 0" using ulp_pos [of x] by linarith

subsection \<open>Rounding to the nearest integer, ties to even\<close>

lemma round_even_of_int [simp]: "round_even (of_int n) = n"
  by (simp add: round_even_def)

lemma round_even_err: "\<bar>of_int (round_even x) - x\<bar> \<le> 1 / 2"
  unfolding round_even_def Let_def by (auto simp: abs_if; linarith)

lemma round_even_bound:
  assumes "\<bar>y\<bar> < of_int k"
  shows "\<bar>round_even y\<bar> \<le> k"
proof -
  have "\<bar>real_of_int (round_even y)\<bar> \<le> \<bar>y\<bar> + 1 / 2" using round_even_err [of y] by linarith
  then have "\<bar>real_of_int (round_even y)\<bar> < of_int k + 1 / 2" using assms by linarith
  then have "real_of_int \<bar>round_even y\<bar> < of_int (k + 1)" by simp
  then have "\<bar>round_even y\<bar> < k + 1" by (simp only: of_int_less_iff)
  then show ?thesis by simp
qed

lemma round_even_nonpos: "z \<le> 0 \<Longrightarrow> round_even z \<le> 0"
proof -
  assume z: "z \<le> 0"
  then have n: "\<lfloor>z\<rfloor> \<le> 0" by (simp add: floor_le_iff) 
  have "1 / 2 \<le> z - of_int \<lfloor>z\<rfloor> \<Longrightarrow> \<lfloor>z\<rfloor> + 1 \<le> 0"
  proof -
    assume "1 / 2 \<le> z - of_int \<lfloor>z\<rfloor>"
    with z have "real_of_int \<lfloor>z\<rfloor> < 0" by linarith
    then have "\<lfloor>z\<rfloor> < 0" by (simp only: of_int_less_0_iff)
    then show ?thesis by linarith
  qed
  with n show ?thesis by (auto simp: round_even_def Let_def)
qed

subsection \<open>The rounded value\<close>

lemma of_int_abs_less_pow: "\<bar>m\<bar> < 2 ^ k \<Longrightarrow> \<bar>real_of_int m\<bar> < 2 ^ k"
proof -
  assume "\<bar>m\<bar> < 2 ^ k"
  then have "real_of_int \<bar>m\<bar> < real_of_int (2 ^ k)" by (simp only: of_int_less_iff)
  then show ?thesis by simp
qed

lemma of_int_abs_le_pow: "\<bar>m\<bar> \<le> 2 ^ k \<Longrightarrow> \<bar>real_of_int m\<bar> \<le> 2 ^ k"
proof -
  assume "\<bar>m\<bar> \<le> 2 ^ k"
  then have "real_of_int \<bar>m\<bar> \<le> real_of_int (2 ^ k)" by (simp only: of_int_le_iff)
  then show ?thesis by simp
qed

lemma fl_eval:
  assumes "pow2 e \<le> \<bar>x\<bar>" "\<bar>x\<bar> < pow2 (e + 1)" "- 1022 \<le> e"
  shows "fl x = of_int (round_even (x / pow2 (e - 52))) * pow2 (e - 52)"
proof -
  have "0 < \<bar>x\<bar>" using assms(1) pow2_pos [of e] by linarith
  then have "x \<noteq> 0" by simp
  then show ?thesis using exponent_eq [OF assms] by (simp add: fl_def ulp_def)
qed

lemma fl_representable:
  assumes x: "x = of_int m * pow2 q" and m: "\<bar>m\<bar> < 2 ^ 53" and q: "- 1074 \<le> q"
  shows "fl x = x"
proof (cases "x = 0")
  case True then show ?thesis by (simp add: fl_def)
next
  case False
  let ?e = "exponent x"
  have "\<bar>x\<bar> = of_int \<bar>m\<bar> * pow2 q" by (simp add: x abs_mult)
  also have "\<dots> = \<bar>real_of_int m\<bar> * pow2 q" by simp
  also have "\<dots> < 2 ^ 53 * pow2 q"
    using of_int_abs_less_pow [OF m] by (intro mult_strict_right_mono) simp_all
  also have "\<dots> = pow2 (53 + q)" using pow2_nat [of 53] by (simp add: pow2_add)
  finally have "\<bar>x\<bar> < pow2 (53 + q)" .
  then have "?e < 53 + q" using False q by (intro exponent_less) simp_all
  then have d: "0 \<le> q - (?e - 52)" by simp
  have "x / ulp x = of_int m * pow2 (q - (?e - 52))"
    by (simp add: x ulp_def pow2_diff)
  also have "\<dots> = of_int (m * 2 ^ nat (q - (?e - 52)))"
    using d by (simp add: pow2_def)
  finally have "x / ulp x = of_int (m * 2 ^ nat (q - (?e - 52)))" .
  then have "of_int (round_even (x / ulp x)) = x / ulp x"
    by (simp only: round_even_of_int)
  then show ?thesis using False by (simp add: fl_def)
qed

lemma fl_err: "\<bar>fl x - x\<bar> \<le> ulp x / 2"
proof (cases "x = 0")
  case True then show ?thesis by (simp add: fl_def)
next
  case False
  have "fl x - x = (of_int (round_even (x / ulp x)) - x / ulp x) * ulp x"
    using False by (simp add: fl_def algebra_simps)
  then have "\<bar>fl x - x\<bar> = \<bar>of_int (round_even (x / ulp x)) - x / ulp x\<bar> * ulp x"
    by (simp add: abs_mult)
  also have "\<dots> \<le> 1 / 2 * ulp x"
    by (intro mult_right_mono round_even_err) simp
  finally show ?thesis by simp
qed

lemma fl_abs_err:
  assumes "\<bar>x\<bar> < pow2 m" "- 1022 < m"
  shows "\<bar>fl x - x\<bar> \<le> pow2 (m - 54)"
proof (cases "x = 0")
  case True then show ?thesis by (simp add: fl_def less_imp_le)
next
  case False
  have "exponent x < m" using False assms by (rule exponent_less)
  then have "exponent x - 52 \<le> m - 53" by simp
  then have "ulp x \<le> pow2 (m - 53)" unfolding ulp_def by (simp only: pow2_le_iff)
  then have "ulp x / 2 \<le> pow2 (m - 53) / 2" by simp
  also have "\<dots> = pow2 (m - 54)"
    using pow2_diff [of "m - 53" 1] by (simp add: pow2_def)
  finally show ?thesis using fl_err [of x] by linarith
qed

lemma fl_rel_err:
  assumes "pow2 (- 1022) \<le> \<bar>y\<bar>"
  shows "\<bar>fl y - y\<bar> \<le> \<bar>y\<bar> * pow2 (- 53)"
proof -
  have "0 < \<bar>y\<bar>" using assms pow2_pos [of "- 1022"] by linarith
  then have y0: "y \<noteq> 0" by simp
  have "pow2 (- 1022) < pow2 (\<lfloor>log 2 \<bar>y\<bar>\<rfloor> + 1)"
    using assms floor_log2_bounds(2) [OF y0] by linarith
  then have "- 1022 \<le> \<lfloor>log 2 \<bar>y\<bar>\<rfloor>" by simp
  then have "pow2 (exponent y) \<le> \<bar>y\<bar>" using y0 by (intro exponent_below)
  then have "pow2 (exponent y) * pow2 (- 53) \<le> \<bar>y\<bar> * pow2 (- 53)"
    by (intro mult_right_mono) simp_all
  moreover have "ulp y / 2 = pow2 (exponent y) * pow2 (- 53)"
    using pow2_add [of "exponent y" "- 53"] pow2_diff [of "exponent y - 52" 1]
    by (simp add: ulp_def pow2_nat [of 1, simplified])
  ultimately show ?thesis using fl_err [of y] by linarith
qed

lemma fl_of_int:
  assumes "\<bar>n\<bar> \<le> 2 ^ 53"
  shows "fl (of_int n) = of_int n"
proof (cases "\<bar>n\<bar> < 2 ^ 53")
  case True
  show ?thesis by (rule fl_representable [of _ n 0]) (use True in simp_all)
next
  case False
  with assms have n: "\<bar>n\<bar> = 2 ^ 53" by simp
  then have "n = 2 ^ 53 \<or> n = - (2 ^ 53)" by (simp add: abs_if split: if_splits)
  then have "real_of_int n = of_int (n div 2) * pow2 1" "\<bar>n div 2\<bar> < 2 ^ 53"
    by (auto simp: pow2_def)
  then show ?thesis by (intro fl_representable [of _ "n div 2" 1]) simp_all
qed

lemma fl_mantissa_bound: "x \<noteq> 0 \<Longrightarrow> \<bar>round_even (x / ulp x)\<bar> \<le> 2 ^ 53"
proof -
  assume x: "x \<noteq> 0"
  have "\<bar>x / ulp x\<bar> = \<bar>x\<bar> / ulp x" by simp
  also have "\<dots> < pow2 (exponent x + 1) / ulp x"
    using exponent_above [OF x] by (simp add: divide_strict_right_mono)
  also have "\<dots> = pow2 53"
    using pow2_diff [of "exponent x + 1" "exponent x - 52"] by (simp add: ulp_def)
  also have "\<dots> = of_int (2 ^ 53)" using pow2_nat [of 53] by simp
  finally show ?thesis by (rule round_even_bound)
qed

lemma fl_idem [simp]: "fl (fl x) = fl x"
proof (cases "x = 0")
  case True then show ?thesis by (simp add: fl_def)
next
  case False
  let ?m = "round_even (x / ulp x)" and ?q = "exponent x - 52"
  have fx: "fl x = of_int ?m * pow2 ?q" using False by (simp add: fl_def ulp_def)
  have q: "- 1074 \<le> ?q" using exponent_ge [of x] by simp
  have m: "\<bar>?m\<bar> \<le> 2 ^ 53" using False by (rule fl_mantissa_bound)
  show ?thesis
  proof (cases "\<bar>?m\<bar> < 2 ^ 53")
    case True
    show ?thesis by (rule fl_representable [OF fx True q])
  next
    case F: False
    with m have "\<bar>?m\<bar> = 2 ^ 53" by simp
    then have "?m = 9007199254740992 \<or> ?m = - 9007199254740992"
      by (simp add: abs_if split: if_splits)
    then have "?m = 2 * (?m div 2)" "\<bar>?m div 2\<bar> < 2 ^ 53"
      by auto
    then have "fl x = of_int (?m div 2) * pow2 (?q + 1)"
      using fx pow2_add [of ?q 1] by (simp add: pow2_nat [of 1, simplified] algebra_simps)
    then show ?thesis using \<open>\<bar>?m div 2\<bar> < 2 ^ 53\<close> q
      by (intro fl_representable [of _ "?m div 2" "?q + 1"]) simp_all
  qed
qed

lemma fl_bound:
  assumes "pow2 e \<le> \<bar>x\<bar>" "\<bar>x\<bar> < pow2 (e + 1)" "- 1022 \<le> e"
  shows "\<bar>fl x\<bar> \<le> pow2 (e + 1)"
proof -
  let ?u = "pow2 (e - 52)"
  have "\<bar>x / ?u\<bar> = \<bar>x\<bar> / ?u" by simp
  also have "\<dots> < pow2 (e + 1) / ?u" using assms(2) by (simp add: divide_strict_right_mono)
  also have "\<dots> = pow2 53" using pow2_diff [of "e + 1" "e - 52"] by simp
  also have "\<dots> = of_int (2 ^ 53)" using pow2_nat [of 53] by simp
  finally have "\<bar>round_even (x / ?u)\<bar> \<le> 2 ^ 53" by (rule round_even_bound)
  then have "real_of_int \<bar>round_even (x / ?u)\<bar> \<le> real_of_int (2 ^ 53)" by (simp only: of_int_le_iff)
  then have "\<bar>real_of_int (round_even (x / ?u))\<bar> \<le> pow2 53" using pow2_nat [of 53] by simp
  then have "\<bar>real_of_int (round_even (x / ?u))\<bar> * ?u \<le> pow2 53 * ?u"
    by (intro mult_right_mono) simp_all
  also have "pow2 53 * ?u = pow2 (e + 1)" using pow2_add [of 53 "e - 52"] by (simp add: add.commute)
  finally show ?thesis using fl_eval [OF assms] by (simp add: abs_mult)
qed

lemma fl_nonpos: "y \<le> 0 \<Longrightarrow> fl y \<le> 0"
proof (cases "y = 0")
  case True then show ?thesis by (simp add: fl_def)
next
  case False
  assume "y \<le> 0"
  then have "y / ulp y \<le> 0" by (simp add: divide_nonpos_pos)
  then have "round_even (y / ulp y) \<le> 0" by (rule round_even_nonpos)
  then have "real_of_int (round_even (y / ulp y)) \<le> 0" by simp
  then show ?thesis using False by (simp add: fl_def mult_nonpos_nonneg)
qed

lemma fl_sub_one_exact:
  assumes rep: "fl t = t" and t1: "1 \<le> t" and t2: "t \<le> 2 ^ 53"
  shows "fl (t - 1) = t - 1"
proof -
  let ?m = "round_even (t / ulp t)" and ?e = "exponent t"
  have t0: "t \<noteq> 0" using t1 by simp
  have e0: "0 \<le> ?e" using t1 by (rule exponent_nonneg)
  have "\<bar>t\<bar> < pow2 54" using t1 t2 pow2_nat [of 54] by simp
  then have e54: "?e < 54" using t0 by (intro exponent_less) simp_all
  have tm: "t = of_int ?m * pow2 (?e - 52)" using rep t0 by (simp add: fl_def ulp_def)
  show ?thesis
  proof (cases "?e \<le> 52")
    case True
    let ?k = "nat (52 - ?e)"
    have one: "1 = of_int (2 ^ ?k) * pow2 (?e - 52)"
    proof -
      have "of_int (2 ^ ?k) = pow2 (52 - ?e)" using True by (simp add: pow2_def)
      then have "of_int (2 ^ ?k) * pow2 (?e - 52) = pow2 ((52 - ?e) + (?e - 52))"
        by (simp only: pow2_add)
      then show ?thesis by simp
    qed
    have eq: "t - 1 = of_int (?m - 2 ^ ?k) * pow2 (?e - 52)"
    proof -
      have "of_int (?m - 2 ^ ?k) * pow2 (?e - 52)
            = of_int ?m * pow2 (?e - 52) - of_int (2 ^ ?k) * pow2 (?e - 52)"
        by (simp only: of_int_diff left_diff_distrib)
      then show ?thesis using tm one by simp
    qed
    have "0 \<le> real_of_int (?m - 2 ^ ?k) * pow2 (?e - 52)" using eq t1 by simp
    then have "0 \<le> real_of_int (?m - 2 ^ ?k)"
      using pow2_pos [of "?e - 52"] mult_neg_pos [of "real_of_int (?m - 2 ^ ?k)" "pow2 (?e - 52)"]
      by linarith
    then have lo: "0 \<le> ?m - 2 ^ ?k" by (simp only: of_int_0_le_iff)
    have "\<bar>?m\<bar> \<le> 2 ^ 53" using t0 by (rule fl_mantissa_bound)
    moreover have "(0::int) < 2 ^ ?k" by simp
    ultimately have "\<bar>?m - 2 ^ ?k\<bar> < 2 ^ 53" using lo by linarith
    then show ?thesis using e0 by (intro fl_representable [OF eq]) simp_all
  next
    case False
    with e54 have e: "?e = 53" by simp
    have "- 1022 \<le> \<lfloor>log 2 \<bar>t\<bar>\<rfloor>" using e by (simp add: exponent_def max_def split: if_splits)
    then have "pow2 53 \<le> \<bar>t\<bar>" using exponent_below [OF t0] e by simp
    then have "t = 2 ^ 53" using t1 t2 pow2_nat [of 53] by simp
    then have "t - 1 = of_int (2 ^ 53 - 1)" by simp
    moreover have "fl (of_int (2 ^ 53 - 1)) = of_int (2 ^ 53 - 1)" by (rule fl_of_int) simp
    ultimately show ?thesis by simp
  qed
qed

lemma fl_abs_err_50: "\<bar>y\<bar> < 1125899906842624 \<Longrightarrow> \<bar>fl y - y\<bar> \<le> 1 / 16"
proof -
  assume "\<bar>y\<bar> < 1125899906842624"
  then have "\<bar>y\<bar> < pow2 50" using pow2_nat [of 50] by simp
  then have "\<bar>fl y - y\<bar> \<le> pow2 (50 - 54)" by (rule fl_abs_err) simp
  then show ?thesis by (simp add: pow2_def)
qed

subsection \<open>The rounding function\<close>

lemma binary64_of_int:
  assumes "\<bar>n\<bar> \<le> 2 ^ 53"
  shows "binary64 (of_int n) = Fin (of_int n)"
proof -
  have "\<bar>real_of_int n\<bar> \<le> 2 ^ 53" using assms by (rule of_int_abs_le_pow)
  also have "\<dots> = pow2 53" using pow2_nat [of 53] by simp
  also have "\<dots> < pow2 1024" by (simp only: pow2_less_iff)
  finally show ?thesis by (simp add: binary64_def fl_of_int [OF assms])
qed

lemma binary64_eval:
  assumes "pow2 e \<le> \<bar>x\<bar>" "\<bar>x\<bar> < pow2 (e + 1)" "- 1022 \<le> e" "e \<le> 1022"
  shows "binary64 x = Fin (of_int (round_even (x / pow2 (e - 52))) * pow2 (e - 52))"
proof -
  have "\<bar>fl x\<bar> \<le> pow2 (e + 1)" using assms(1-3) by (rule fl_bound)
  also have "\<dots> < pow2 1024" using assms(4) by simp
  finally show ?thesis using fl_eval [OF assms(1-3)] by (simp add: binary64_def)
qed

lemma binary64_fin:
  assumes "\<bar>x\<bar> < pow2 m" "- 1022 < m" "m \<le> 1023"
  shows "binary64 x = Fin (fl x)"
proof -
  have "\<bar>fl x\<bar> \<le> \<bar>x\<bar> + pow2 (m - 54)" using fl_abs_err [OF assms(1,2)] by linarith
  also have "\<dots> < pow2 m + pow2 m"
    using assms(1) pow2_less_iff [of "m - 54" m] by (intro add_strict_mono) simp_all
  also have "\<dots> = pow2 (m + 1)" using pow2_add [of m 1] by (simp add: pow2_nat [of 1, simplified])
  also have "\<dots> \<le> pow2 1024" using assms(3) by simp
  finally show ?thesis by (simp add: binary64_def)
qed

lemma binary64_err:
  assumes "\<bar>y\<bar> < pow2 m" "- 1022 < m" "m \<le> 1023"
  shows "binary64 y = Fin (fl y)" and "\<bar>fl y - y\<bar> \<le> pow2 (m - 54)"
  using assms by (rule binary64_fin, intro fl_abs_err)

lemma binary64_fin_50: "\<bar>y\<bar> < 1125899906842624 \<Longrightarrow> binary64 y = Fin (fl y)"
proof -
  assume "\<bar>y\<bar> < 1125899906842624"
  then have "\<bar>y\<bar> < pow2 50" using pow2_nat [of 50] by simp
  then show ?thesis by (rule binary64_fin) simp_all
qed

lemma binary64_idem: "binary64 x = Fin y \<Longrightarrow> binary64 y = Fin y"
  by (auto simp: binary64_def Let_def split: if_splits)

lemma binary64_half: "binary64 (1 / 2) = Fin (1 / 2)"
  using binary64_eval [of "- 1" "1 / 2"] by (simp add: pow2_def round_even_def)

lemma binary64_1005: "binary64 (201 / 2) = Fin (201 / 2)"
  using binary64_eval [of 6 "201 / 2"] by (simp add: pow2_def round_even_def)

lemma dmul_one_binary64: "dmul binary64 (binary64 x) (Fin 1) = binary64 x"
proof (cases "binary64 x")
  case (Fin y)
  then show ?thesis using binary64_idem [OF Fin] by simp
qed (simp_all add: inf_of_sign_def)

section \<open>Properties of the numerical engine\<close>

subsection \<open>The constants\<close>

lemma LARGE_simps [simp]: "LARGE Calculus_h = 1000000" "LARGE include_Calculus_h = 10000"
  by (simp_all add: LARGE_def)

lemma log10_pow: "log 10 (10 ^ n) = real n"
  by (simp add: log_nat_power)

lemma ACCURACY_simps [simp]: "ACCURACY Calculus_h = 5" "ACCURACY include_Calculus_h = 3"
proof -
  have "log 10 1000000 = 6" using log10_pow [of 6] by simp
  then show "ACCURACY Calculus_h = 5" by (simp add: ACCURACY_def trunc_def)
  have "log 10 10000 = 4" using log10_pow [of 4] by simp
  then show "ACCURACY include_Calculus_h = 3" by (simp add: ACCURACY_def trunc_def)
qed

lemma ACCURACY_le: "ACCURACY h \<le> 9"
  by (cases h) simp_all

lemma binary64_SMALL_include: "binary64 (1 / 10000) = Fin (7378697629483821 / 2 ^ 66)"
  using binary64_eval [of "- 14" "1 / 10000"] by (simp add: pow2_def round_even_def)

lemma binary64_SMALL_root: "binary64 (1 / 1000000) = Fin (4722366482869645 / 2 ^ 72)"
  using binary64_eval [of "- 20" "1 / 1000000"] by (simp add: pow2_def round_even_def)

lemma SMALL_binary64:
  "SMALL binary64 include_Calculus_h = Fin (7378697629483821 / 2 ^ 66)"
  "SMALL binary64 Calculus_h = Fin (4722366482869645 / 2 ^ 72)"
  using binary64_SMALL_include binary64_SMALL_root by (simp_all add: SMALL_def)

lemma SMALL_binary64_bounds:
  "\<exists>s. SMALL binary64 h = Fin s \<and> pow2 (- 20) < s \<and> s < 1"
proof (cases h)
  case Calculus_h
  have "pow2 (- 20) < (4722366482869645 / 2 ^ 72 :: real)" "(4722366482869645 / 2 ^ 72 :: real) < 1"
    by (simp_all add: pow2_def)
  then show ?thesis using Calculus_h SMALL_binary64(2) by blast
next
  case include_Calculus_h
  have "pow2 (- 20) < (7378697629483821 / 2 ^ 66 :: real)" "(7378697629483821 / 2 ^ 66 :: real) < 1"
    by (simp_all add: pow2_def)
  then show ?thesis using include_Calculus_h SMALL_binary64(1) by blast
qed

subsection \<open>round\<close>

lemma trunc_of_int [simp]: "trunc (of_int z) = z" by (simp add: trunc_def)

lemma trunc_numeral [simp]: "trunc (numeral n) = numeral n" "trunc (- numeral n) = - numeral n" "trunc 0 = 0" "trunc 1 = 1"
  by (simp_all add: trunc_def)

lemma binary64_pow10: "places \<le> 15 \<Longrightarrow> binary64 (10 ^ places) = Fin (10 ^ places)"
proof -
  assume "places \<le> 15"
  then have "(10::int) ^ places \<le> 10 ^ 15" by (intro power_increasing) simp_all
  also have "\<dots> \<le> 2 ^ 53" by simp
  finally have "\<bar>(10::int) ^ places\<bar> \<le> 2 ^ 53" by simp
  then show ?thesis using binary64_of_int [of "10 ^ places"] by simp
qed

lemma pow10_int_ok: "int_ok (10 ^ places) \<longleftrightarrow> places \<le> 9"
proof
  assume "int_ok (10 ^ places)"
  then have a: "(10::int) ^ places < 10 ^ 10" by (simp add: int_ok_def INT32_MAX_def)
  show "places \<le> 9"
  proof (rule ccontr)
    assume "\<not> places \<le> 9"
    then have "(10::int) ^ 10 \<le> 10 ^ places" by (intro power_increasing) simp_all
    with a show False by simp
  qed
next
  assume "places \<le> 9"
  then have "(10::int) ^ places \<le> 10 ^ 9" by (intro power_increasing) simp_all
  moreover have "- 2147483648 \<le> (0::int)" by simp
  then have "- 2147483648 \<le> (10::int) ^ places" by (rule order_trans) simp
  ultimately show "int_ok (10 ^ places)" by (simp add: int_ok_def INT32_MAX_def)
qed

lemma trunc_pow10 [simp]: "trunc (10 ^ places) = 10 ^ places"
  using trunc_of_int [of "10 ^ places"] by simp

lemma round_d_binary64:
  assumes "places \<le> 9"
  shows "round_d binary64 v places = Some (round_spec binary64 v places)"
proof -
  have "binary64 (10 ^ places) = Fin (of_int (10 ^ places))"
    using assms binary64_pow10 [of places] by simp
  moreover have "int_ok (10 ^ places)" using assms by (simp add: pow10_int_ok)
  ultimately show ?thesis
    by (simp add: round_d_def round_spec_def double_to_int_def int_of_def)
qed

lemma round_d_exact:
  "round_d exact v places = (if places \<le> 9 then Some (round_spec exact v places) else None)"
proof -
  show ?thesis
    by (simp add: round_d_def round_spec_def double_to_int_def int_of_def exact_def pow10_int_ok)
qed

lemma binary64_2345: "binary64 (2345 / 1000) = Fin (5280470563091907 / 2 ^ 51)"
  using binary64_eval [of 1 "2345 / 1000"] by (simp add: pow2_def round_even_def)

lemma binary64_2345_scaled:
  "binary64 (5280470563091907 / 2 ^ 51 * 100) = Fin (8250735254831105 / 2 ^ 45)"
  using binary64_eval [of 7 "5280470563091907 / 2 ^ 51 * 100"]
  by (simp add: pow2_def round_even_def)

lemma binary64_2345_half:
  "binary64 (8250735254831105 / 2 ^ 45 + 1 / 2) = Fin (8268327440875521 / 2 ^ 45)"
  using binary64_eval [of 7 "8250735254831105 / 2 ^ 45 + 1 / 2"]
  by (simp add: pow2_def round_even_def)

lemma binary64_235: "binary64 (235 / 100) = Fin (5291729562160333 / 2 ^ 51)"
  using binary64_eval [of 1 "235 / 100"] by (simp add: pow2_def round_even_def)

text \<open>
  Claim C3, as amended.  For at most nine places, \<open>round\<close> is the scaling by
  \<open>10^places\<close>, the addition of \<open>0.5\<close>, the floor and the rescaling, each
  operation rounded to binary64; and \<open>round(2.345, 2) == 2.35\<close>.
\<close>

theorem round_d_scale_floor_rescale:
  "(places \<le> 9 \<longrightarrow> round_d binary64 val places = Some (round_spec binary64 val places))
   \<and> (case round_d binary64 (binary64 (2345 / 1000)) 2 of
        Some y \<Rightarrow> deq y (binary64 (235 / 100)) | None \<Rightarrow> False)"
proof -
  have "round_d binary64 (binary64 (2345 / 1000)) 2 = Some (Fin (5291729562160333 / 2 ^ 51))"
    using binary64_2345 binary64_2345_scaled binary64_2345_half binary64_235
      binary64_of_int [of 100]
    by (simp add: round_d_def double_to_int_def int_of_def int_ok_def INT32_MAX_def)
  then have b: "case round_d binary64 (binary64 (2345 / 1000)) 2 of
        Some y \<Rightarrow> deq y (binary64 (235 / 100)) | None \<Rightarrow> False"
    by (simp only: binary64_235 option.case deq.simps)
  have a: "places \<le> 9 \<longrightarrow> round_d binary64 val places = Some (round_spec binary64 val places)"
    by (simp add: round_d_binary64)
  from a b show ?thesis by (rule conjI)
qed

text \<open>Witness for C3: two places and the value 1.\<close>

theorem round_d_scale_floor_rescale_witness:
  "(2::nat) \<le> 9 \<and> round_d binary64 (Fin 1) 2 = Some (Fin 1)"
  using round_d_scale_floor_rescale [of 2 "Fin 1"] binary64_1005 binary64_of_int [of 100]
    binary64_of_int [of 1]
  by (simp add: round_spec_def)

lemma binary64_3_10: "binary64 (3 / 10) = Fin (5404319552844595 / 2 ^ 54)"
  using binary64_eval [of "- 2" "3 / 10"] by (simp add: pow2_def round_even_def)

lemma binary64_3_10_scaled:
  "binary64 (5404319552844595 / 2 ^ 54 * 10000000000) = Fin 3000000000"
  using binary64_eval [of 31 "5404319552844595 / 2 ^ 54 * 10000000000"]
  by (simp add: pow2_def round_even_def)

lemma binary64_3_10_half: "binary64 (3000000000 + 1 / 2) = Fin (6000000001 / 2)"
  using binary64_eval [of 31 "3000000000 + 1 / 2"] by (simp add: pow2_def round_even_def)

lemma binary64_3_10_rescaled:
  "binary64 (3000000000 / 10000000000) = Fin (5404319552844595 / 2 ^ 54)"
  using binary64_eval [of "- 2" "3000000000 / 10000000000"] by (simp add: pow2_def round_even_def)

text \<open>
  Counterexample to C3 as stated: for ten places the power \<open>10^10\<close> does not fit
  \<open>int prod\<close> and the conversion is undefined, while the formula gives 0.3 for
  the value 0.3.
\<close>

theorem round_d_ten_places_counterexample:
  "round_d binary64 (binary64 (3 / 10)) 10 = None
   \<and> round_spec binary64 (binary64 (3 / 10)) 10 = binary64 (3 / 10)"
proof -
  have a: "binary64 10000000000 = Fin 10000000000" using binary64_of_int [of 10000000000] by simp
  show ?thesis
    using a binary64_3_10 binary64_3_10_scaled binary64_3_10_half binary64_3_10_rescaled
    by (simp add: round_d_def round_spec_def double_to_int_def int_of_def int_ok_def INT32_MAX_def)
qed

lemma round_real_bounds:
  assumes "\<bar>z\<bar> \<le> 562949953421312"
  shows "\<bar>fl z\<bar> < 1125899906842624" and "\<bar>fl z + 1 / 2\<bar> < 1125899906842624"
    and "\<bar>real_of_int \<lfloor>fl (fl z + 1 / 2)\<rfloor>\<bar> \<le> 562949953421313"
proof -
  have "\<bar>z\<bar> < 1125899906842624" using assms by linarith
  then have a: "\<bar>fl z - z\<bar> \<le> 1 / 16" by (rule fl_abs_err_50)
  show a1: "\<bar>fl z\<bar> < 1125899906842624" using a assms by linarith
  show a2: "\<bar>fl z + 1 / 2\<bar> < 1125899906842624" using a assms by linarith
  let ?b = "fl (fl z + 1 / 2)"
  have b: "\<bar>?b - (fl z + 1 / 2)\<bar> \<le> 1 / 16" using a2 by (rule fl_abs_err_50)
  have b1: "\<bar>?b\<bar> \<le> 562949953421313" using a b assms by linarith
  have f: "real_of_int \<lfloor>?b\<rfloor> \<le> ?b" "?b < real_of_int \<lfloor>?b\<rfloor> + 1" by linarith+
  have "- 562949953421314 < real_of_int \<lfloor>?b\<rfloor>" using b1 f(2) by linarith
  then have "real_of_int (- 562949953421314) < real_of_int \<lfloor>?b\<rfloor>" by simp
  then have "- 562949953421314 < \<lfloor>?b\<rfloor>" by (simp only: of_int_less_iff)
  then have "- 562949953421313 \<le> \<lfloor>?b\<rfloor>" by simp
  then have "real_of_int (- 562949953421313) \<le> real_of_int \<lfloor>?b\<rfloor>" by (simp only: of_int_le_iff)
  then have "- 562949953421313 \<le> real_of_int \<lfloor>?b\<rfloor>" by simp
  then show "\<bar>real_of_int \<lfloor>?b\<rfloor>\<bar> \<le> 562949953421313" using b1 f(1) by linarith
qed

lemma round_real_idem:
  assumes P: "1 \<le> P" "P \<le> 1000000000" and z: "\<bar>x * P\<bar> \<le> 562949953421312"
  defines "k \<equiv> \<lfloor>fl (fl (x * P) + 1 / 2)\<rfloor>"
  shows "\<lfloor>fl (fl (fl (of_int k / P) * P) + 1 / 2)\<rfloor> = k"
    and "\<bar>fl (of_int k / P) * P\<bar> < 1125899906842624"
    and "\<bar>fl (fl (of_int k / P) * P) + 1 / 2\<bar> < 1125899906842624"
    and "\<bar>of_int k / P\<bar> < 1125899906842624"
proof -
  let ?q = "real_of_int k / P" and ?r = "fl (real_of_int k / P)"
  have kb: "\<bar>real_of_int k\<bar> \<le> 562949953421313"
    unfolding k_def using z by (rule round_real_bounds(3))
  have qP: "?q * P = real_of_int k" using P by simp
  have "\<bar>?q\<bar> = \<bar>real_of_int k\<bar> / P" using P by simp
  also have "\<dots> \<le> \<bar>real_of_int k\<bar> / 1" using P by (intro divide_left_mono) simp_all
  finally have qk: "\<bar>?q\<bar> \<le> \<bar>real_of_int k\<bar>" by simp
  then show q50: "\<bar>?q\<bar> < 1125899906842624" using kb by linarith
  have rel: "\<bar>?r - ?q\<bar> \<le> \<bar>?q\<bar> * pow2 (- 53)"
  proof (cases "k = 0")
    case True then show ?thesis by (simp add: fl_def)
  next
    case False
    then have "1 \<le> \<bar>k\<bar>" by simp
    then have "real_of_int 1 \<le> real_of_int \<bar>k\<bar>" by (simp only: of_int_le_iff)
    then have k1: "1 \<le> \<bar>real_of_int k\<bar>" by simp
    have "pow2 (- 1022) \<le> pow2 (- 30)" by (simp only: pow2_le_iff)
    also have "\<dots> \<le> 1 / 1000000000" by (simp add: pow2_def)
    also have "\<dots> \<le> 1 / P" using P by (intro divide_left_mono) simp_all
    also have "\<dots> \<le> \<bar>real_of_int k\<bar> / P" using k1 P by (intro divide_right_mono) simp_all
    also have "\<dots> = \<bar>?q\<bar>" using P by simp
    finally show ?thesis by (rule fl_rel_err)
  qed
  have "?r * P - real_of_int k = (?r - ?q) * P" using qP by (simp add: algebra_simps)
  then have "\<bar>?r * P - real_of_int k\<bar> = \<bar>?r - ?q\<bar> * P" using P by (simp add: abs_mult)
  also have "\<dots> \<le> (\<bar>?q\<bar> * pow2 (- 53)) * P" using rel P by (intro mult_right_mono) simp_all
  also have "\<dots> = \<bar>real_of_int k\<bar> * pow2 (- 53)" using P by simp
  also have "\<dots> \<le> 562949953421313 * pow2 (- 53)" using kb by (intro mult_right_mono) simp_all
  also have "\<dots> \<le> 1 / 8" by (simp add: pow2_def)
  finally have e1: "\<bar>?r * P - real_of_int k\<bar> \<le> 1 / 8" .
  show r50: "\<bar>?r * P\<bar> < 1125899906842624" using e1 kb by linarith
  then have e2: "\<bar>fl (?r * P) - ?r * P\<bar> \<le> 1 / 16" by (rule fl_abs_err_50)
  show a50: "\<bar>fl (?r * P) + 1 / 2\<bar> < 1125899906842624" using e1 e2 kb by linarith
  then have e3: "\<bar>fl (fl (?r * P) + 1 / 2) - (fl (?r * P) + 1 / 2)\<bar> \<le> 1 / 16"
    by (rule fl_abs_err_50)
  have "real_of_int k \<le> fl (fl (?r * P) + 1 / 2)" "fl (fl (?r * P) + 1 / 2) < real_of_int k + 1"
    using e1 e2 e3 by linarith+
  then show "\<lfloor>fl (fl (?r * P) + 1 / 2)\<rfloor> = k" by (intro floor_unique)
qed

lemma round_spec_fin:
  assumes "places \<le> 9"
    and "\<bar>x * 10 ^ places\<bar> < 1125899906842624"
    and "\<bar>fl (x * 10 ^ places) + 1 / 2\<bar> < 1125899906842624"
    and "\<bar>real_of_int \<lfloor>fl (fl (x * 10 ^ places) + 1 / 2)\<rfloor> / 10 ^ places\<bar> < 1125899906842624"
  shows "round_spec binary64 (Fin x) places =
         Fin (fl (of_int \<lfloor>fl (fl (x * 10 ^ places) + 1 / 2)\<rfloor> / 10 ^ places))"
  using binary64_fin_50 [OF assms(2)] binary64_fin_50 [OF assms(3)] binary64_fin_50 [OF assms(4)]
  by (simp add: round_spec_def)

lemma pow10_bounds: "places \<le> 9 \<Longrightarrow> 1 \<le> (10::real) ^ places \<and> (10::real) ^ places \<le> 1000000000"
proof -
  assume "places \<le> 9"
  then have "(10::real) ^ places \<le> 10 ^ 9" by (intro power_increasing) simp_all
  then show ?thesis by simp
qed

lemma round_d_idem:
  assumes "places \<le> 9" and "\<bar>x\<bar> * 10 ^ places \<le> 2 ^ 49"
  shows "\<exists>y. round_d binary64 (Fin x) places = Some y \<and> round_d binary64 y places = Some y"
proof -
  let ?P = "(10::real) ^ places"
  let ?k = "\<lfloor>fl (fl (x * ?P) + 1 / 2)\<rfloor>"
  let ?r = "fl (of_int ?k / ?P)"
  have P: "1 \<le> ?P" "?P \<le> 1000000000" using pow10_bounds [OF assms(1)] by simp_all
  have z: "\<bar>x * ?P\<bar> \<le> 562949953421312" using assms(2) by (simp add: abs_mult)
  have z': "\<bar>x * ?P\<bar> < 1125899906842624" using z by linarith
  note I = round_real_idem [OF P z]
  have first: "round_spec binary64 (Fin x) places = Fin ?r"
    using assms(1) z' round_real_bounds(2) [OF z] I(4) by (rule round_spec_fin)
  have "round_spec binary64 (Fin ?r) places =
        Fin (fl (of_int \<lfloor>fl (fl (?r * ?P) + 1 / 2)\<rfloor> / ?P))"
    using assms(1) I(2) I(3)
  proof (rule round_spec_fin)
    show "\<bar>real_of_int \<lfloor>fl (fl (?r * ?P) + 1 / 2)\<rfloor> / ?P\<bar> < 1125899906842624"
      using I(4) by (simp only: I(1))
  qed
  then have second: "round_spec binary64 (Fin ?r) places = Fin ?r" by (simp only: I(1))
  show ?thesis using first second assms(1) by (simp add: round_d_binary64)
qed

text \<open>
  Claim C4, as amended.  For at most nine places and a value with
  \<open>|x| * 10^places \<le> 2^49\<close>, rounding the rounded value again returns it: the
  rounding errors of the second scaling stay below a quarter, and the floor
  finds the same integer.
\<close>

theorem round_d_idempotent_in_range:
  assumes "places \<le> 9" and "\<bar>x\<bar> * 10 ^ places \<le> 2 ^ 49"
  shows "\<exists>y. round_d binary64 (Fin x) places = Some y \<and> round_d binary64 y places = Some y"
  using assms by (rule round_d_idem)

text \<open>Witness for C4: the value 1 and two places.\<close>

theorem round_d_idempotent_in_range_witness:
  "(2::nat) \<le> 9 \<and> \<bar>1::real\<bar> * 10 ^ 2 \<le> 2 ^ 49
   \<and> (\<exists>y. round_d binary64 (Fin 1) 2 = Some y \<and> round_d binary64 y 2 = Some y)"
  using round_d_idempotent_in_range [of 2 1] by simp

lemma binary64_c4_a: "binary64 (2659668715603633 / 2 ^ 5 * 100) = Fin (8311464736261353)"
  using binary64_eval [of 52 "2659668715603633 / 2 ^ 5 * 100"] by (simp add: pow2_def round_even_def)

lemma binary64_c4_b: "binary64 (8311464736261353 + 1 / 2) = Fin (8311464736261354)"
  using binary64_eval [of 52 "8311464736261353 + 1 / 2"] by (simp add: pow2_def round_even_def)

lemma binary64_c4_r1: "binary64 (8311464736261354 / 100) = Fin (5319337431207267 / 2 ^ 6)"
  using binary64_eval [of 46 "8311464736261354 / 100"] by (simp add: pow2_def round_even_def)

lemma binary64_c4_a2: "binary64 (5319337431207267 / 2 ^ 6 * 100) = Fin (8311464736261355)"
  using binary64_eval [of 52 "5319337431207267 / 2 ^ 6 * 100"] by (simp add: pow2_def round_even_def)

lemma binary64_c4_b2: "binary64 (8311464736261355 + 1 / 2) = Fin (8311464736261356)"
  using binary64_eval [of 52 "8311464736261355 + 1 / 2"] by (simp add: pow2_def round_even_def)

lemma binary64_c4_r2: "binary64 (8311464736261356 / 100) = Fin (1329834357801817 / 2 ^ 4)"
  using binary64_eval [of 46 "8311464736261356 / 100"] by (simp add: pow2_def round_even_def)

text \<open>
  Counterexample to C4 as stated: the \<open>double\<close> 83114647362613.53 and two
  places.  The first rounding gives 83114647362613.55, the rounding of that
  value gives 83114647362613.56.
\<close>

theorem round_d_not_idempotent_counterexample:
  "round_d binary64 (Fin (2659668715603633 / 32)) 2 = Some (Fin (5319337431207267 / 64))
   \<and> round_d binary64 (Fin (5319337431207267 / 64)) 2 = Some (Fin (1329834357801817 / 16))
   \<and> \<not> deq (Fin (1329834357801817 / 16)) (Fin (5319337431207267 / 64))"
  using binary64_c4_a binary64_c4_b binary64_c4_r1 binary64_c4_a2 binary64_c4_b2 binary64_c4_r2
    binary64_of_int [of 100]
  by (simp add: round_d_def double_to_int_def int_of_def int_ok_def INT32_MAX_def)

subsection \<open>derivative\<close>

lemma derivative_eq:
  "derivative r h fx x =
     round_d r (dmul r (dsub r (fx (dadd r x (SMALL r h))) (fx x)) (Fin (LARGE h))) (ACCURACY h)"
  by (simp add: derivative_def derivative_body_def stateless_def)

lemma derivative_binary64:
  "derivative binary64 h fx x =
     Some (round_spec binary64
       (dmul binary64 (dsub binary64 (fx (dadd binary64 x (SMALL binary64 h))) (fx x))
          (Fin (LARGE h))) (ACCURACY h))"
  by (simp add: derivative_eq round_d_binary64 ACCURACY_le)

lemma derivative_body_logged:
  "derivative_body r h (logged g) x (s, tr) =
     (case g (dadd r x (SMALL r h)) s of (a, s1) \<Rightarrow>
      case g x s1 of (b, s2) \<Rightarrow>
        (round_d r (dmul r (dsub r a b) (Fin (LARGE h))) (ACCURACY h),
         (s2, tr @ [dadd r x (SMALL r h), x])))"
  by (simp add: derivative_body_def logged_def split: prod.splits)

text \<open>
  Claim C5.  In binary64 arithmetic and with both headers, the derivative of
  \<open>fx\<close> at \<open>x\<close> is defined and is
  \<open>floor((fx(x + SMALL) - fx(x)) * LARGE * 10^ACCURACY + 0.5) / 10^ACCURACY\<close>, every
  operation rounded.  One evaluation of it calls \<open>fx\<close> exactly twice, at
  \<open>x + SMALL\<close> and at \<open>x\<close>, whatever state \<open>fx\<close> carries: run on a function that
  logs its calls, the body leaves the earlier entries of the log as they are and
  adds two entries, which are these two arguments; the value it computes on a
  stateless function is the one of the derivative.
\<close>

theorem derivative_forward_difference:
  "derivative binary64 h fx x =
     Some (ddiv binary64
       (dfloor (dadd binary64
          (dmul binary64
             (dmul binary64 (dsub binary64 (fx (dadd binary64 x (SMALL binary64 h))) (fx x))
                (Fin (LARGE h)))
             (Fin (10 ^ ACCURACY h)))
          (Fin (1 / 2))))
       (Fin (10 ^ ACCURACY h)))
   \<and> length (snd (snd (derivative_body r h (logged g) x (s, tr)))) = length tr + 2
   \<and> take (length tr) (snd (snd (derivative_body r h (logged g) x (s, tr)))) = tr
   \<and> set (drop (length tr) (snd (snd (derivative_body r h (logged g) x (s, tr))))) =
       {dadd r x (SMALL r h), x}
   \<and> fst (derivative_body r h (logged (stateless fx)) x (u, tr)) = derivative r h fx x"
proof -
  have "fst (derivative_body r h (logged (stateless fx)) x (u, tr)) = derivative r h fx x"
    by (simp add: derivative_body_logged derivative_eq stateless_def)
  moreover have "snd (snd (derivative_body r h (logged g) x (s, tr))) =
      tr @ [dadd r x (SMALL r h), x]"
    by (simp add: derivative_body_logged split: prod.splits)
  ultimately show ?thesis
    by (simp add: derivative_binary64 round_spec_def)
qed

subsection \<open>roots\<close>

lemma bind_funpow_None: "((\<lambda>w. Option.bind w (f :: 'a \<Rightarrow> 'a option)) ^^ n) None = None"
  by (induction n) simp_all

lemma roots_funpow:
  "roots r h fx initial iter =
     ((\<lambda>w. Option.bind w (newton_step r h fx)) ^^ iter) (Some initial)"
proof (induction iter arbitrary: initial)
  case 0
  show ?case by simp
next
  case (Suc iter)
  show ?case
  proof (cases "derivative r h fx initial")
    case None
    then show ?thesis
      by (simp add: funpow_Suc_right newton_step_def bind_funpow_None
          roots.simps [of r h fx initial "Suc iter"] del: roots.simps funpow.simps)
  next
    case (Some d)
    then show ?thesis
      using Suc.IH [of "dsub r initial (ddiv r (fx initial) d)"]
      by (simp add: funpow_Suc_right newton_step_def
          roots.simps [of r h fx initial "Suc iter"] del: roots.simps funpow.simps)
  qed
qed

text \<open>
  Claim C6.  \<open>roots\<close> applies the Newton step to \<open>initial\<close> exactly \<open>iter\<close> times
  and returns the last iterate; no test ends the iteration early; with
  \<open>iter = 0\<close> it returns \<open>initial\<close>.
\<close>

theorem roots_iterates_newton_step:
  "roots r h fx initial iter =
     ((\<lambda>w. Option.bind w (newton_step r h fx)) ^^ iter) (Some initial)
   \<and> newton_step binary64 h fx x =
     (case derivative binary64 h fx x of
        Some d \<Rightarrow> Some (dsub binary64 x (ddiv binary64 (fx x) d)) | None \<Rightarrow> None)
   \<and> derivative binary64 h fx x \<noteq> None
   \<and> roots r h fx initial 0 = Some initial"
  by (simp add: roots_funpow [symmetric] newton_step_def derivative_binary64 del: roots.simps)
     simp

lemma roots_add:
  "roots r h fx x (k + m) = Option.bind (roots r h fx x k) (\<lambda>y. roots r h fx y m)"
proof (induction k arbitrary: x)
  case 0
  show ?case by simp
next
  case (Suc k)
  show ?case
  proof (cases "derivative r h fx x")
    case None
    then show ?thesis
      by (simp del: roots.simps add: roots.simps [of r h fx x "Suc (k + m)"]
          roots.simps [of r h fx x "Suc k"])
  next
    case (Some d)
    then show ?thesis using Suc.IH [of "dsub r x (ddiv r (fx x) d)"]
      by (simp del: roots.simps add: roots.simps [of r h fx x "Suc (k + m)"]
          roots.simps [of r h fx x "Suc k"])
  qed
qed

lemma ddiv_zero_not_finite: "deq d (Fin 0) \<Longrightarrow> \<not> is_finite (ddiv r a d)"
  by (cases d; cases a) (auto simp: inf_of_sign_def)

lemma dsub_not_finite_right: "\<not> is_finite q \<Longrightarrow> \<not> is_finite (dsub r x q)"
  by (cases x; cases q) simp_all

lemma dsub_not_finite_left: "\<not> is_finite x \<Longrightarrow> \<not> is_finite (dsub r x q)"
  by (cases x; cases q) simp_all

lemma roots_not_finite:
  "\<not> is_finite x \<Longrightarrow> \<exists>y. roots binary64 h fx x n = Some y \<and> \<not> is_finite y"
proof (induction n arbitrary: x)
  case 0
  then show ?case by simp
next
  case (Suc n)
  obtain d where d: "derivative binary64 h fx x = Some d"
    using derivative_binary64 [of h fx x] by simp
  have "\<not> is_finite (dsub binary64 x (ddiv binary64 (fx x) d))"
    using Suc.prems by (rule dsub_not_finite_left)
  from Suc.IH [OF this] show ?case
    using d by (simp del: roots.simps add: roots.simps [of binary64 h fx x "Suc n"])
qed

text \<open>
  Claim C7.  When the derivative is zero at an iterate \<open>x\<close> of \<open>roots\<close>, the
  quotient \<open>fx(x) / 0\<close> of the Newton step is an infinity or not-a-number, and so
  is the next iterate \<open>x - fx(x) / 0\<close>, which \<open>roots\<close> returns when no iteration
  remains.  After \<open>m\<close> further iterations \<open>roots\<close> returns the value that \<open>m\<close>
  Newton steps make of that iterate: there is no error path, every one of these
  steps is defined, and the value returned is again an infinity or
  not-a-number, whatever \<open>fx\<close> is.
\<close>

theorem roots_zero_derivative_not_finite:
  assumes "roots binary64 h fx initial k = Some x"
    and "derivative binary64 h fx x = Some d"
    and "deq d (Fin 0)"
  shows "\<not> is_finite (ddiv binary64 (fx x) d)
         \<and> \<not> is_finite (dsub binary64 x (ddiv binary64 (fx x) d))
         \<and> roots binary64 h fx initial (k + 1) = Some (dsub binary64 x (ddiv binary64 (fx x) d))
         \<and> (\<exists>y. roots binary64 h fx initial (k + (1 + m)) = Some y \<and> \<not> is_finite y
              \<and> ((\<lambda>w. Option.bind w (newton_step binary64 h fx)) ^^ m)
                   (Some (dsub binary64 x (ddiv binary64 (fx x) d))) = Some y)"
proof -
  let ?x' = "dsub binary64 x (ddiv binary64 (fx x) d)"
  have q: "\<not> is_finite (ddiv binary64 (fx x) d)"
    using assms(3) by (rule ddiv_zero_not_finite)
  then have x': "\<not> is_finite ?x'" by (rule dsub_not_finite_right)
  then obtain y where y: "roots binary64 h fx ?x' m = Some y" "\<not> is_finite y"
    using roots_not_finite by blast
  have step: "roots binary64 h fx x (1 + n) = roots binary64 h fx ?x' n" for n
    using assms(2) by (simp del: roots.simps add: roots.simps [of binary64 h fx x "Suc n"])
  have one: "roots binary64 h fx initial (k + 1) = Some ?x'"
    using assms(1) step [of 0] roots_add [of binary64 h fx initial k 1]
    by (simp del: roots.simps add: roots.simps [of _ _ _ _ 0])
  have many: "roots binary64 h fx initial (k + (1 + m)) = Some y"
    using assms(1) y(1) step [of m] roots_add [of binary64 h fx initial k "1 + m"]
    by (simp del: roots.simps)
  have "((\<lambda>w. Option.bind w (newton_step binary64 h fx)) ^^ m) (Some ?x') = Some y"
    using y(1) roots_funpow [of binary64 h fx ?x' m] by simp
  with q x' one many y(2) show ?thesis by blast
qed

lemma derivative_const:
  "derivative binary64 include_Calculus_h (\<lambda>x. Fin 1) x = Some (Fin 0)"
  using binary64_of_int [of 0] binary64_half
  by (simp add: derivative_binary64 round_spec_def)

text \<open>
  Witness for C7: the constant function 1, whose derivative is zero at once.
  From 0 the first step gives \<open>0 - 1 / 0\<close>, minus infinity, and every later step
  leaves it there.
\<close>

theorem roots_zero_derivative_not_finite_witness:
  "roots binary64 include_Calculus_h (\<lambda>x. Fin 1) (Fin 0) 0 = Some (Fin 0)
   \<and> derivative binary64 include_Calculus_h (\<lambda>x. Fin 1) (Fin 0) = Some (Fin 0)
   \<and> deq (Fin 0) (Fin 0)
   \<and> ddiv binary64 (Fin 1) (Fin 0) = PInf
   \<and> roots binary64 include_Calculus_h (\<lambda>x. Fin 1) (Fin 0) 1 = Some NInf
   \<and> roots binary64 include_Calculus_h (\<lambda>x. Fin 1) (Fin 0) 3 = Some NInf
   \<and> \<not> is_finite NInf"
  using roots_zero_derivative_not_finite
    [of include_Calculus_h "\<lambda>x. Fin 1" "Fin 0" 0 "Fin 0" "Fin 0" 2] derivative_const
  by (simp del: roots.simps add: roots.simps [of _ _ _ _ 0] newton_step_def inf_of_sign_def
      numeral_2_eq_2 numeral_3_eq_3)


subsection \<open>integral_definite and integral\<close>

lemma integral_loop_once:
  assumes "dle i bound" and "\<not> dle (dadd r i (SMALL r h)) bound"
  shows "integral_loop r h fx bound i ret = Some (dadd r ret (dmul r (fx i) (SMALL r h)))"
  using assms
  by (subst integral_loop.simps, simp, subst integral_loop.simps, simp)

lemma integral_loop_skip:
  "\<not> dle i bound \<Longrightarrow> integral_loop r h fx bound i ret = Some ret"
  by (subst integral_loop.simps) simp

lemma grid_point_0 [simp]: "grid_point r h lower 0 = lower"
  by (simp add: grid_point_def)

lemma grid_point_Suc: "grid_point r h lower (Suc k) = dadd r (grid_point r h lower k) (SMALL r h)"
  by (simp add: grid_point_def)

lemma riemann_sum_0 [simp]: "riemann_sum r h fx lower 0 = Fin 0"
  by (simp add: riemann_sum_def)

lemma riemann_sum_Suc:
  "riemann_sum r h fx lower (Suc n) =
     dadd r (riemann_sum r h fx lower n) (dmul r (fx (grid_point r h lower n)) (SMALL r h))"
  by (simp add: riemann_sum_def)

lemma integral_loop_grid:
  assumes "\<forall>k<n. dle (grid_point r h lower (j + k)) bound"
    and "\<not> dle (grid_point r h lower (j + n)) bound"
  shows "integral_loop r h fx bound (grid_point r h lower j) ret =
         Some (foldl (\<lambda>ret k. dadd r ret (dmul r (fx (grid_point r h lower k)) (SMALL r h)))
                 ret [j..<j + n])"
  using assms
proof (induction n arbitrary: j ret)
  case 0
  then show ?case by (simp add: integral_loop_skip)
next
  case (Suc n)
  have first: "dle (grid_point r h lower j) bound" using Suc.prems(1) [rule_format, of 0] by simp
  have rest: "\<forall>k<n. dle (grid_point r h lower (Suc j + k)) bound"
    using Suc.prems(1) by (auto dest: spec [of _ "Suc _"])
  have stop: "\<not> dle (grid_point r h lower (Suc j + n)) bound" using Suc.prems(2) by simp
  have "integral_loop r h fx bound (grid_point r h lower j) ret =
        integral_loop r h fx bound (grid_point r h lower (Suc j))
          (dadd r ret (dmul r (fx (grid_point r h lower j)) (SMALL r h)))"
    using first by (subst integral_loop.simps) (simp add: grid_point_Suc)
  also have "\<dots> = Some (foldl (\<lambda>ret k. dadd r ret (dmul r (fx (grid_point r h lower k)) (SMALL r h)))
                 (dadd r ret (dmul r (fx (grid_point r h lower j)) (SMALL r h))) [Suc j..<Suc j + n])"
    using rest stop by (rule Suc.IH)
  finally have "integral_loop r h fx bound (grid_point r h lower j) ret =
      Some (foldl (\<lambda>ret k. dadd r ret (dmul r (fx (grid_point r h lower k)) (SMALL r h)))
              ret (j # [Suc j..<Suc j + n]))"
    by simp
  moreover have "[j..<j + Suc n] = j # [Suc j..<Suc j + n]"
    using upt_conv_Cons [of j "j + Suc n"] by simp
  ultimately show ?case by (simp only:)
qed

lemma integral_loop_riemann_sum:
  assumes "\<forall>k<n. dle (grid_point r h lower k) bound"
    and "\<not> dle (grid_point r h lower n) bound"
  shows "integral_loop r h fx bound lower (Fin 0) = Some (riemann_sum r h fx lower n)"
  using integral_loop_grid [of n r h lower 0 bound fx "Fin 0"] assms
  by (simp add: riemann_sum_def)

lemma integral_definite_include:
  assumes "\<forall>k<n. dle (grid_point r include_Calculus_h lower k) (dabs upper)"
    and "\<not> dle (grid_point r include_Calculus_h lower n) (dabs upper)"
  shows "integral_definite r include_Calculus_h fx lower upper =
         round_d r (dmul r (riemann_sum r include_Calculus_h fx lower n)
                      (Fin (if dlt upper (Fin 0) then - 1 else 1)))
           (ACCURACY include_Calculus_h)"
  using integral_loop_riemann_sum [OF assms, of fx]
  by (simp add: integral_definite_def)

lemma integral_definite_root:
  assumes "\<forall>k<n. dle (grid_point r Calculus_h lower k) upper"
    and "\<not> dle (grid_point r Calculus_h lower n) upper"
  shows "integral_definite r Calculus_h fx lower upper =
         round_d r (riemann_sum r Calculus_h fx lower n) (ACCURACY Calculus_h)"
  using integral_loop_riemann_sum [OF assms, of fx]
  by (simp add: integral_definite_def)

lemma triangle_sum_Suc: "triangle_sum (Suc k) = triangle_sum k + real k / 100000000"
  by (simp add: triangle_sum_def field_simps)

lemma triangle_sum_bounds:
  assumes "k \<le> 40001"
  shows "0 \<le> triangle_sum k" and "triangle_sum k \<le> 80002 / 10000"
proof -
  show "0 \<le> triangle_sum k"
    by (cases k) (simp_all add: triangle_sum_def)
  have "real k * (real k - 1) \<le> 40001 * 40000"
  proof (cases k)
    case 0 then show ?thesis by simp
  next
    case (Suc j)
    then have "real k \<le> 40001" "real k - 1 \<le> 40000" "0 \<le> real k - 1" using assms by simp_all
    then show ?thesis by (intro mult_mono) simp_all
  qed
  then show "triangle_sum k \<le> 80002 / 10000" by (simp add: triangle_sum_def)
qed

lemma grid_step_error:
  assumes "k \<le> 40001" and "\<bar>x - real k / 10000\<bar> \<le> real k / 1125899906842624"
  shows "\<exists>x'. dadd binary64 (Fin x) (SMALL binary64 include_Calculus_h) = Fin x'
             \<and> \<bar>x' - real (Suc k) / 10000\<bar> \<le> real (Suc k) / 1125899906842624"
proof -
  let ?s = "7378697629483821 / 73786976294838206464 :: real"
  have k: "0 \<le> real k" "real k \<le> 40001" using assms(1) by simp_all
  have "\<bar>x + ?s\<bar> < 8" using assms(2) k by (simp add: abs_if split: if_splits)
  then have "\<bar>x + ?s\<bar> < pow2 3" by (simp add: pow2_def)
  from binary64_err [OF this] have
    b: "binary64 (x + ?s) = Fin (fl (x + ?s))" and e: "\<bar>fl (x + ?s) - (x + ?s)\<bar> \<le> pow2 (3 - 54)"
    by simp_all
  have e': "\<bar>fl (x + ?s) - (x + ?s)\<bar> \<le> 1 / 2251799813685248" using e by (simp add: pow2_def)
  have "\<bar>fl (x + ?s) - real (Suc k) / 10000\<bar> \<le> real (Suc k) / 1125899906842624"
    using e' assms(2) by (simp add: abs_if field_simps split: if_splits)
  then show ?thesis using b by (simp add: SMALL_binary64)
qed

lemma sum_step_error:
  assumes "k \<le> 40001" and "\<bar>x - real k / 10000\<bar> \<le> real k / 1125899906842624"
    and "\<bar>\<rho> - triangle_sum k\<bar> \<le> real k / 17592186044416"
  shows "\<exists>\<rho>'. dadd binary64 (Fin \<rho>) (dmul binary64 (Fin x) (SMALL binary64 include_Calculus_h))
               = Fin \<rho>'
             \<and> \<bar>\<rho>' - triangle_sum (Suc k)\<bar> \<le> real (Suc k) / 17592186044416"
proof -
  let ?s = "7378697629483821 / 73786976294838206464 :: real"
  have k: "0 \<le> real k" "real k \<le> 40001" using assms(1) by simp_all
  note S = triangle_sum_bounds [OF assms(1)]
  have xs: "\<bar>x * ?s - real k / 100000000\<bar> \<le> 1 / 70368744177664"
    using assms(2) k by (simp add: abs_if field_simps split: if_splits)
  then have "\<bar>x * ?s\<bar> < 1 / 1024" using k by (simp add: abs_if split: if_splits)
  then have "\<bar>x * ?s\<bar> < pow2 (- 10)" by (simp add: pow2_def)
  from binary64_err [OF this] have
    tb: "binary64 (x * ?s) = Fin (fl (x * ?s))"
    and te: "\<bar>fl (x * ?s) - x * ?s\<bar> \<le> pow2 (- 10 - 54)"
    by simp_all
  have te': "\<bar>fl (x * ?s) - x * ?s\<bar> \<le> 1 / 18446744073709551616" using te by (simp add: pow2_def)
  let ?t = "fl (x * ?s)"
  have t: "\<bar>?t - real k / 100000000\<bar> \<le> 1 / 35184372088832" using xs te' by linarith
  have "\<bar>\<rho> + ?t\<bar> < 16" using assms(3) S t k by (simp add: abs_if split: if_splits)
  then have "\<bar>\<rho> + ?t\<bar> < pow2 4" by (simp add: pow2_def)
  from binary64_err [OF this] have
    rb: "binary64 (\<rho> + ?t) = Fin (fl (\<rho> + ?t))"
    and re: "\<bar>fl (\<rho> + ?t) - (\<rho> + ?t)\<bar> \<le> pow2 (4 - 54)"
    by simp_all
  have re': "\<bar>fl (\<rho> + ?t) - (\<rho> + ?t)\<bar> \<le> 1 / 1125899906842624" using re by (simp add: pow2_def)
  have "\<bar>fl (\<rho> + ?t) - triangle_sum (Suc k)\<bar> \<le> real (Suc k) / 17592186044416"
    using re' t assms(3) by (simp add: triangle_sum_Suc abs_if field_simps split: if_splits)
  then show ?thesis using tb rb by (simp add: SMALL_binary64)
qed

lemma grid_and_sum_error:
  "k \<le> 40001 \<Longrightarrow>
   \<exists>x \<rho>. grid_point binary64 include_Calculus_h (Fin 0) k = Fin x
        \<and> riemann_sum binary64 include_Calculus_h (\<lambda>x. x) (Fin 0) k = Fin \<rho>
        \<and> \<bar>x - real k / 10000\<bar> \<le> real k / 1125899906842624
        \<and> \<bar>\<rho> - triangle_sum k\<bar> \<le> real k / 17592186044416"
proof (induction k)
  case 0
  show ?case by (simp add: triangle_sum_def)
next
  case (Suc k)
  then have k: "k \<le> 40001" by simp
  from Suc.IH [OF k] obtain x \<rho> where
    g: "grid_point binary64 include_Calculus_h (Fin 0) k = Fin x"
    and r: "riemann_sum binary64 include_Calculus_h (\<lambda>x. x) (Fin 0) k = Fin \<rho>"
    and xe: "\<bar>x - real k / 10000\<bar> \<le> real k / 1125899906842624"
    and re: "\<bar>\<rho> - triangle_sum k\<bar> \<le> real k / 17592186044416"
    by blast
  from grid_step_error [OF k xe] obtain x' where
    x': "dadd binary64 (Fin x) (SMALL binary64 include_Calculus_h) = Fin x'"
      "\<bar>x' - real (Suc k) / 10000\<bar> \<le> real (Suc k) / 1125899906842624"
    by blast
  from sum_step_error [OF k xe re] obtain \<rho>' where
    \<rho>': "dadd binary64 (Fin \<rho>) (dmul binary64 (Fin x) (SMALL binary64 include_Calculus_h)) = Fin \<rho>'"
      "\<bar>\<rho>' - triangle_sum (Suc k)\<bar> \<le> real (Suc k) / 17592186044416"
    by blast
  show ?case using g r x' \<rho>' by (simp only: grid_point_Suc riemann_sum_Suc) blast
qed

lemma round_near_8:
  assumes "\<bar>\<rho> - 8\<bar> \<le> 3 / 10000"
  shows "round_d binary64 (dmul binary64 (Fin \<rho>) (Fin (- 1))) 3 = Some (Fin (- 8))"
proof -
  have "\<bar>\<rho> * (- 1)\<bar> < 16" using assms by (simp add: abs_if split: if_splits)
  then have "\<bar>\<rho> * (- 1)\<bar> < pow2 4" by (simp add: pow2_def)
  from binary64_err [OF this] have
    vb: "binary64 (\<rho> * (- 1)) = Fin (fl (\<rho> * (- 1)))"
    and ve: "\<bar>fl (\<rho> * (- 1)) - \<rho> * (- 1)\<bar> \<le> pow2 (4 - 54)"
    by simp_all
  let ?v = "fl (\<rho> * (- 1))"
  have ve': "\<bar>?v + \<rho>\<bar> \<le> 1 / 1125899906842624" using ve by (simp add: pow2_def)
  have v: "\<bar>?v * 10 ^ 3 + 8000\<bar> \<le> 31 / 100" using ve' assms by (simp add: abs_if split: if_splits)
  then have a50: "\<bar>?v * 10 ^ 3\<bar> < 1125899906842624" by (simp add: abs_if split: if_splits)
  then have ae: "\<bar>fl (?v * 10 ^ 3) - ?v * 10 ^ 3\<bar> \<le> 1 / 16" by (rule fl_abs_err_50)
  have b50: "\<bar>fl (?v * 10 ^ 3) + 1 / 2\<bar> < 1125899906842624" using ae v by linarith
  then have be: "\<bar>fl (fl (?v * 10 ^ 3) + 1 / 2) - (fl (?v * 10 ^ 3) + 1 / 2)\<bar> \<le> 1 / 16"
    by (rule fl_abs_err_50)
  have "- 8000 \<le> fl (fl (?v * 10 ^ 3) + 1 / 2)"
    "fl (fl (?v * 10 ^ 3) + 1 / 2) < - 8000 + 1"
    using ae be v by linarith+
  then have "real_of_int (- 8000) \<le> fl (fl (?v * 10 ^ 3) + 1 / 2)"
    "fl (fl (?v * 10 ^ 3) + 1 / 2) < real_of_int (- 8000) + 1"
    by simp_all
  then have fl8000: "\<lfloor>fl (fl (?v * 10 ^ 3) + 1 / 2)\<rfloor> = - 8000" by (intro floor_unique)
  have c50: "\<bar>real_of_int \<lfloor>fl (fl (?v * 10 ^ 3) + 1 / 2)\<rfloor> / 10 ^ 3\<bar> < 1125899906842624"
    by (simp only: fl8000) simp
  have "round_spec binary64 (Fin ?v) 3 =
        Fin (fl (real_of_int \<lfloor>fl (fl (?v * 10 ^ 3) + 1 / 2)\<rfloor> / 10 ^ 3))"
    by (rule round_spec_fin [OF _ a50 b50 c50]) simp
  also have "\<dots> = Fin (fl (real_of_int (- 8)))" by (simp only: fl8000) simp
  also have "\<dots> = Fin (- 8)" using fl_of_int [of "- 8"] by simp
  finally show ?thesis using vb by (simp add: round_d_binary64)
qed

lemma grid_point_below_4:
  assumes "k < 40000"
  shows "dle (grid_point binary64 include_Calculus_h (Fin 0) k) (Fin 4)"
proof -
  have k: "k \<le> 40001" "real k \<le> 39999" using assms by simp_all
  from grid_and_sum_error [OF k(1), THEN exE] obtain x where
    "grid_point binary64 include_Calculus_h (Fin 0) k = Fin x"
    "\<bar>x - real k / 10000\<bar> \<le> real k / 1125899906842624"
    by blast
  then show ?thesis using k(2) by (simp add: abs_if field_simps split: if_splits)
qed

lemma grid_point_above_4:
  "\<not> dle (grid_point binary64 include_Calculus_h (Fin 0) 40001) (Fin 4)"
proof -
  from grid_and_sum_error [of 40001, THEN exE] obtain x where
    "grid_point binary64 include_Calculus_h (Fin 0) 40001 = Fin x"
    "\<bar>x - real 40001 / 10000\<bar> \<le> real 40001 / 1125899906842624"
    by auto
  then show ?thesis by (simp add: abs_if split: if_splits)
qed

lemma riemann_sum_near_8:
  assumes "n = 40000 \<or> n = 40001"
  shows "\<exists>\<rho>. riemann_sum binary64 include_Calculus_h (\<lambda>x. x) (Fin 0) n = Fin \<rho>
             \<and> \<bar>\<rho> - 8\<bar> \<le> 3 / 10000"
proof -
  have n: "n \<le> 40001" using assms by auto
  from grid_and_sum_error [OF n] obtain \<rho> where
    r: "riemann_sum binary64 include_Calculus_h (\<lambda>x. x) (Fin 0) n = Fin \<rho>"
    and e: "\<bar>\<rho> - triangle_sum n\<bar> \<le> real n / 17592186044416"
    by blast
  have "\<bar>\<rho> - 8\<bar> \<le> 3 / 10000"
    using assms e by (auto simp: triangle_sum_def abs_if split: if_splits)
  with r show ?thesis by blast
qed

lemma integral_of_identity_value:
  "integral_definite binary64 include_Calculus_h (\<lambda>x. x) (Fin 0) (Fin (- 4)) = Some (Fin (- 8))"
proof -
  let ?gp = "grid_point binary64 include_Calculus_h (Fin 0)"
  obtain n where n: "n = 40000 \<or> n = 40001"
    and below: "\<forall>k<n. dle (?gp k) (dabs (Fin (- 4)))"
    and above: "\<not> dle (?gp n) (dabs (Fin (- 4)))"
  proof (cases "dle (?gp 40000) (Fin 4)")
    case True
    have "\<forall>k<40001. dle (?gp k) (dabs (Fin (- 4)))"
    proof (intro allI impI)
      fix k :: nat assume "k < 40001"
      then have "k < 40000 \<or> k = 40000" by auto
      then show "dle (?gp k) (dabs (Fin (- 4)))" using True grid_point_below_4 by auto
    qed
    moreover have "\<not> dle (?gp 40001) (dabs (Fin (- 4)))" using grid_point_above_4 by simp
    ultimately show ?thesis using that [of 40001] by blast
  next
    case False
    have "\<forall>k<40000. dle (?gp k) (dabs (Fin (- 4)))" using grid_point_below_4 by simp
    moreover have "\<not> dle (?gp 40000) (dabs (Fin (- 4)))" using False by simp
    ultimately show ?thesis using that [of 40000] by blast
  qed
  from riemann_sum_near_8 [OF n] obtain \<rho> where
    r: "riemann_sum binary64 include_Calculus_h (\<lambda>x. x) (Fin 0) n = Fin \<rho>"
    and e: "\<bar>\<rho> - 8\<bar> \<le> 3 / 10000"
    by blast
  show ?thesis
    using integral_definite_include [OF below above, of "\<lambda>x. x"] r round_near_8 [OF e]
    by simp
qed

lemma integral_of_identity_root:
  "integral_definite binary64 Calculus_h (\<lambda>x. x) (Fin 0) (Fin (- 4)) = Some (Fin 0)"
  using binary64_of_int [of 0] binary64_half
  by (simp add: integral_definite_def integral_loop_skip round_d_binary64 round_spec_def)

lemma binary64_1000_SMALL_include: "binary64 (1000 * (7378697629483821 / 2 ^ 66)) = Fin (3602879701896397 / 2 ^ 55)"
  using binary64_eval [of "- 4" "1000 * (7378697629483821 / 2 ^ 66)"] by (simp add: pow2_def round_even_def)

lemma binary64_1000_SMALL_root: "binary64 (1000 * (4722366482869645 / 2 ^ 72)) = Fin (1152921504606847 / 2 ^ 60)"
  using binary64_eval [of "- 10" "1000 * (4722366482869645 / 2 ^ 72)"] by (simp add: pow2_def round_even_def)

lemma binary64_tenth_scaled: "binary64 (3602879701896397 / 2 ^ 55 * 1000) = Fin 100"
  using binary64_eval [of 6 "3602879701896397 / 2 ^ 55 * 1000"] by (simp add: pow2_def round_even_def)

lemma binary64_thousandth_scaled: "binary64 (1152921504606847 / 2 ^ 60 * 100000) = Fin 100"
  using binary64_eval [of 6 "1152921504606847 / 2 ^ 60 * 100000"] by (simp add: pow2_def round_even_def)

lemma binary64_tenth: "binary64 (100 / 1000) = Fin (3602879701896397 / 2 ^ 55)"
  using binary64_eval [of "- 4" "100 / 1000"] by (simp add: pow2_def round_even_def)

lemma binary64_thousandth: "binary64 (100 / 100000) = Fin (1152921504606847 / 2 ^ 60)"
  using binary64_eval [of "- 10" "100 / 100000"] by (simp add: pow2_def round_even_def)

lemma integral_loop_exits:
  assumes "integral_loop r h fx bound i ret = Some y"
  shows "\<exists>n. \<not> dle (grid_point r h i n) bound"
  using assms
proof (induction r h fx bound i ret y rule: integral_loop.raw_induct [rotated 1, consumes 1])
  case (1 integral_loop r h fx bound i ret y)
  show ?case
  proof (cases "dle i bound")
    case True
    with 1(2) have "integral_loop r h fx bound (dadd r i (SMALL r h))
        (dadd r ret (dmul r (fx i) (SMALL r h))) = Some y" by simp
    from 1(1) [OF this] obtain n where
      "\<not> dle (grid_point r h (dadd r i (SMALL r h)) n) bound" by blast
    then have "\<not> dle (grid_point r h i (Suc n)) bound"
      by (simp add: grid_point_def funpow_Suc_right del: funpow.simps)
    then show ?thesis by blast
  next
    case False
    then have "\<not> dle (grid_point r h i 0) bound" by simp
    then show ?thesis by blast
  qed
qed

lemma integral_loop_total:
  "integral_loop r h fx bound lower (Fin 0) =
     (if \<exists>n. \<not> dle (grid_point r h lower n) bound
      then Some (riemann_sum r h fx lower (LEAST n. \<not> dle (grid_point r h lower n) bound))
      else None)"
proof (cases "\<exists>n. \<not> dle (grid_point r h lower n) bound")
  case True
  let ?P = "\<lambda>n. \<not> dle (grid_point r h lower n) bound"
  from True have stop: "?P (Least ?P)" by (rule LeastI_ex)
  have "\<forall>k<Least ?P. dle (grid_point r h lower k) bound"
    using not_less_Least [of _ ?P] by blast
  from integral_loop_riemann_sum [OF this stop] True show ?thesis by simp
next
  case False
  have "integral_loop r h fx bound lower (Fin 0) = None"
  proof (cases "integral_loop r h fx bound lower (Fin 0)")
    case None then show ?thesis .
  next
    case (Some y)
    from integral_loop_exits [OF this] False show ?thesis by blast
  qed
  with False show ?thesis by simp
qed

lemma binary64_2SMALL_include: "binary64 (7378697629483821 / 2 ^ 66 + 7378697629483821 / 2 ^ 66) = Fin (7378697629483821 / 2 ^ 65)"
  using binary64_eval [of "- 13" "7378697629483821 / 2 ^ 66 + 7378697629483821 / 2 ^ 66"] by (simp add: pow2_def round_even_def)

lemma binary64_fifth_sum: "binary64 (3602879701896397 / 2 ^ 55 + 3602879701896397 / 2 ^ 55) = Fin (3602879701896397 / 2 ^ 54)"
  using binary64_eval [of "- 3" "3602879701896397 / 2 ^ 55 + 3602879701896397 / 2 ^ 55"] by (simp add: pow2_def round_even_def)

lemma binary64_neg_fifth: "binary64 (- (3602879701896397 / 2 ^ 54)) = Fin (- (3602879701896397 / 2 ^ 54))"
  using binary64_eval [of "- 3" "- (3602879701896397 / 2 ^ 54)"] by (simp add: pow2_def round_even_def)

lemma binary64_neg_fifth_scaled: "binary64 (- (3602879701896397 / 2 ^ 54) * 1000) = Fin (- 200)"
  using binary64_eval [of "7" "- (3602879701896397 / 2 ^ 54) * 1000"] by (simp add: pow2_def round_even_def)

lemma binary64_neg_399_half: "binary64 (- 200 + 1 / 2) = Fin (- (399 / 2))"
  using binary64_eval [of "7" "- 200 + 1 / 2"] by (simp add: pow2_def round_even_def)

lemma binary64_neg_200_1000: "binary64 (- 200 / 1000) = Fin (- (3602879701896397 / 2 ^ 54))"
  using binary64_eval [of "- 3" "- 200 / 1000"] by (simp add: pow2_def round_even_def)


text \<open>
  Claim C1, as amended.  In src/include/Calculus.h, for every \<open>fx\<close> and all
  bounds, \<open>integral_definite\<close> sums \<open>fx\<close> times \<open>SMALL\<close> over the grid from \<open>lower\<close>
  up to \<open>|upper|\<close> stepping by \<open>SMALL\<close>, that is over the points \<open>lower\<close>,
  \<open>lower + SMALL\<close>, \<open>lower + SMALL + SMALL\<close>, ... that come before the first one
  above \<open>|upper|\<close> (there is no result when no point is above \<open>|upper|\<close>, the
  loop running for ever); it multiplies the sum by \<open>-1\<close> when \<open>upper\<close> is negative
  and by 1 otherwise, and rounds the product to \<open>ACCURACY\<close> digits.  For
  \<open>fx(x) = x\<close> the integral from 0 to \<open>-4\<close> is \<open>-8\<close>.
\<close>

theorem integral_definite_sign_convention:
  "integral_definite r include_Calculus_h fx lower upper =
     (if \<exists>n. \<not> dle (grid_point r include_Calculus_h lower n) (dabs upper)
      then round_d r
             (dmul r
                (riemann_sum r include_Calculus_h fx lower
                   (LEAST n. \<not> dle (grid_point r include_Calculus_h lower n) (dabs upper)))
                (Fin (if dlt upper (Fin 0) then - 1 else 1)))
             (ACCURACY include_Calculus_h)
      else None)
   \<and> integral_definite binary64 include_Calculus_h (\<lambda>x. x) (Fin 0) (Fin (- 4)) = Some (Fin (- 8))"
  using integral_of_identity_value
  by (simp add: integral_definite_def integral_loop_total)

text \<open>
  Witness for C1: the constant function 1000 from 0 to \<open>-1/8192\<close>.  The grid
  points 0 and \<open>SMALL\<close> are at most \<open>|upper| = 1/8192\<close> and the third one is
  above it, while all three are above \<open>upper\<close> itself; the sum of the two terms is
  0.2 and the result \<open>-0.2\<close>.
\<close>

theorem integral_definite_sign_convention_witness:
  "dle (grid_point binary64 include_Calculus_h (Fin 0) 0) (dabs (Fin (- (1 / 8192))))
   \<and> dle (grid_point binary64 include_Calculus_h (Fin 0) 1) (dabs (Fin (- (1 / 8192))))
   \<and> \<not> dle (grid_point binary64 include_Calculus_h (Fin 0) 2) (dabs (Fin (- (1 / 8192))))
   \<and> \<not> dle (grid_point binary64 include_Calculus_h (Fin 0) 2) (Fin (- (1 / 8192)))
   \<and> dlt (Fin (- (1 / 8192))) (Fin 0)
   \<and> riemann_sum binary64 include_Calculus_h (\<lambda>x. Fin 1000) (Fin 0) 2 =
       Fin (3602879701896397 / 2 ^ 54)
   \<and> integral_definite binary64 include_Calculus_h (\<lambda>x. Fin 1000) (Fin 0) (Fin (- (1 / 8192))) =
       Some (Fin (- (3602879701896397 / 2 ^ 54)))"
proof -
  let ?P = "\<lambda>n. \<not> dle (grid_point binary64 include_Calculus_h (Fin 0) n)
                  (dabs (Fin (- (1 / 8192))))"
  have s: "binary64 (7378697629483821 / 2 ^ 66) = Fin (7378697629483821 / 2 ^ 66)"
    using binary64_SMALL_include by (rule binary64_idem)
  have g0: "\<not> ?P 0" by simp
  have g1: "\<not> ?P 1"
    using s by (simp add: grid_point_def SMALL_binary64)
  have g2: "?P 2"
    using s binary64_2SMALL_include by (simp add: grid_point_def SMALL_binary64 numeral_2_eq_2)
  have g2': "\<not> dle (grid_point binary64 include_Calculus_h (Fin 0) 2) (Fin (- (1 / 8192)))"
    using s binary64_2SMALL_include by (simp add: grid_point_def SMALL_binary64 numeral_2_eq_2)
  have "2 \<le> n" if "?P n" for n
  proof (rule ccontr)
    assume "\<not> 2 \<le> n"
    then have "n = 0 \<or> n = 1" by arith
    with g0 g1 that show False by blast
  qed
  with g2 have least: "Least ?P = 2" by (rule Least_equality)
  have ex: "\<exists>n. ?P n" using g2 by blast
  have t: "binary64 (3602879701896397 / 2 ^ 55) = Fin (3602879701896397 / 2 ^ 55)"
    using binary64_1000_SMALL_include by (rule binary64_idem)
  have sum: "riemann_sum binary64 include_Calculus_h (\<lambda>x. Fin 1000) (Fin 0) 2 =
       Fin (3602879701896397 / 2 ^ 54)"
    using binary64_1000_SMALL_include t binary64_fifth_sum
    by (simp add: riemann_sum_def SMALL_binary64 numeral_2_eq_2)
  have rnd: "round_d binary64 (dmul binary64 (Fin (3602879701896397 / 2 ^ 54)) (Fin (- 1))) 3 =
       Some (Fin (- (3602879701896397 / 2 ^ 54)))"
    using binary64_neg_fifth binary64_neg_fifth_scaled binary64_neg_399_half
      binary64_neg_200_1000
    by (simp add: round_d_binary64 round_spec_def)
  have "integral_definite binary64 include_Calculus_h (\<lambda>x. Fin 1000) (Fin 0)
          (Fin (- (1 / 8192))) = Some (Fin (- (3602879701896397 / 2 ^ 54)))"
    using integral_definite_sign_convention
      [of binary64 "\<lambda>x. Fin 1000" "Fin 0" "Fin (- (1 / 8192))"] ex rnd
    by (simp only: least sum if_True) simp
  with g0 g1 g2 g2' sum show ?thesis by simp
qed


text \<open>
  Counterexample to C1 as stated: in src/Calculus.h the loop runs up to \<open>upper\<close>
  itself and no sign is applied, so for \<open>fx(x) = x\<close> the integral from 0 to
  \<open>-4\<close> is 0, not \<open>-8\<close>.
\<close>

theorem integral_definite_root_header_counterexample:
  "integral_definite binary64 Calculus_h (\<lambda>x. x) (Fin 0) (Fin (- 4)) = Some (Fin 0)
   \<and> \<not> deq (Fin 0) (Fin (- 8))"
  using integral_of_identity_root by simp

lemma next_grid_point_above:
  assumes "0 \<le> a" "a \<le> 2 ^ 30"
  shows "\<not> dle (dadd binary64 (Fin a) (SMALL binary64 h)) (Fin a)"
proof -
  obtain s where s: "SMALL binary64 h = Fin s" "pow2 (- 20) < s" "s < 1"
    using SMALL_binary64_bounds by blast
  have "0 < s" using s(2) pow2_pos [of "- 20"] by linarith
  then have "\<bar>a + s\<bar> < 2 ^ 30 + 2 ^ 30" using assms s(3) by (simp add: abs_if)
  also have "\<dots> = pow2 31" using pow2_nat [of 31] by simp
  finally have b: "\<bar>a + s\<bar> < pow2 31" .
  then have f: "binary64 (a + s) = Fin (fl (a + s))" by (rule binary64_fin) simp_all
  have "\<bar>fl (a + s) - (a + s)\<bar> \<le> pow2 (31 - 54)" using b by (rule fl_abs_err) simp
  moreover have "pow2 (31 - 54) < pow2 (- 20)" by (simp only: pow2_less_iff)
  ultimately have "a < fl (a + s)" using s(2) by linarith
  then show ?thesis using s(1) f by simp
qed

lemma dmul_one_dadd:
  "dmul binary64 (dadd binary64 (Fin 0) x) (Fin 1) = dadd binary64 (Fin 0) x"
  by (cases x) (simp_all add: dmul_one_binary64 inf_of_sign_def)

lemma integral_definite_anchor:
  assumes "0 \<le> a" "a \<le> 2 ^ 30"
  shows "integral_definite binary64 h fx (Fin a) (Fin a) =
         round_d binary64
           (dadd binary64 (Fin 0) (dmul binary64 (fx (Fin a)) (SMALL binary64 h))) (ACCURACY h)"
proof -
  have n: "\<not> dle (dadd binary64 (Fin a) (SMALL binary64 h)) (Fin a)"
    using assms by (rule next_grid_point_above)
  have l: "integral_loop binary64 h fx (Fin a) (Fin a) (Fin 0) =
           Some (dadd binary64 (Fin 0) (dmul binary64 (fx (Fin a)) (SMALL binary64 h)))"
    using n by (intro integral_loop_once) simp_all
  show ?thesis
    using l assms(1) by (cases h) (simp_all add: integral_definite_def dmul_one_dadd)
qed

text \<open>
  Claim C2, as amended.  With \<open>lower == upper\<close>, a value from 0 to \<open>2^30\<close>, the
  loop of \<open>integral_definite\<close> runs once, for the grid point \<open>lower\<close>, and the
  result is the single term \<open>fx(lower) * SMALL\<close> rounded to \<open>ACCURACY\<close> digits;
  this is the value at \<open>v\<close> of the function that \<open>integral(fx, v)\<close> returns.
\<close>

theorem integral_at_anchor_single_term:
  assumes "0 \<le> a" and "a \<le> 2 ^ 30"
  shows "integral binary64 h fx (Fin a) (Fin a) =
         Some (round_spec binary64
           (dadd binary64 (Fin 0) (dmul binary64 (fx (Fin a)) (SMALL binary64 h))) (ACCURACY h))"
  using integral_definite_anchor [OF assms]
  by (simp add: integral_def round_d_binary64 ACCURACY_le)

lemma integral_of_1000_at_0:
  "integral_definite binary64 include_Calculus_h (\<lambda>x. Fin 1000) (Fin 0) (Fin 0) =
     Some (Fin (3602879701896397 / 2 ^ 55))"
  "integral_definite binary64 Calculus_h (\<lambda>x. Fin 1000) (Fin 0) (Fin 0) =
     Some (Fin (1152921504606847 / 2 ^ 60))"
proof -
  have t: "binary64 (3602879701896397 / 2 ^ 55) = Fin (3602879701896397 / 2 ^ 55)"
    using binary64_tenth by (rule binary64_idem)
  have u: "binary64 (1152921504606847 / 2 ^ 60) = Fin (1152921504606847 / 2 ^ 60)"
    using binary64_thousandth by (rule binary64_idem)
  show "integral_definite binary64 include_Calculus_h (\<lambda>x. Fin 1000) (Fin 0) (Fin 0) =
     Some (Fin (3602879701896397 / 2 ^ 55))"
    using integral_definite_anchor [of 0 include_Calculus_h "\<lambda>x. Fin 1000"]
      binary64_1000_SMALL_include binary64_tenth_scaled binary64_tenth t binary64_1005
    by (simp add: round_d_binary64 round_spec_def SMALL_binary64)
  show "integral_definite binary64 Calculus_h (\<lambda>x. Fin 1000) (Fin 0) (Fin 0) =
     Some (Fin (1152921504606847 / 2 ^ 60))"
    using integral_definite_anchor [of 0 Calculus_h "\<lambda>x. Fin 1000"]
      binary64_1000_SMALL_root binary64_thousandth_scaled binary64_thousandth u binary64_1005
    by (simp add: round_d_binary64 round_spec_def SMALL_binary64)
qed

text \<open>Witness for C2: the anchor 0 and the constant function 1000.\<close>

theorem integral_at_anchor_single_term_witness:
  "(0::real) \<le> 0 \<and> (0::real) \<le> 2 ^ 30
   \<and> integral binary64 include_Calculus_h (\<lambda>x. Fin 1000) (Fin 0) (Fin 0) =
       Some (Fin (3602879701896397 / 2 ^ 55))"
  using integral_at_anchor_single_term [of 0 include_Calculus_h "\<lambda>x. Fin 1000"]
    binary64_1000_SMALL_include binary64_tenth_scaled binary64_tenth binary64_1005
    binary64_idem [OF binary64_tenth]
  by (simp add: round_spec_def SMALL_binary64)

text \<open>
  Counterexample to C2 as stated: for the constant function 1000 and
  \<open>lower == upper == 0\<close> the result is the \<open>double\<close> nearest to 0.1 with
  src/include/Calculus.h and the one nearest to 0.001 with src/Calculus.h, not 0.
\<close>

theorem integral_at_anchor_counterexample:
  "integral binary64 include_Calculus_h (\<lambda>x. Fin 1000) (Fin 0) (Fin 0) =
     Some (Fin (3602879701896397 / 2 ^ 55))
   \<and> integral binary64 Calculus_h (\<lambda>x. Fin 1000) (Fin 0) (Fin 0) =
     Some (Fin (1152921504606847 / 2 ^ 60))
   \<and> \<not> deq (Fin (3602879701896397 / 2 ^ 55)) (Fin 0)
   \<and> \<not> deq (Fin (1152921504606847 / 2 ^ 60)) (Fin 0)"
  using integral_of_1000_at_0 by (simp add: integral_def)

subsection \<open>iterate\<close>

lemma iterate_done: "dle t (Fin 0) \<Longrightarrow> iterate r fx t v = Some v"
  by (subst iterate.simps) simp

lemma iterate_step:
  "\<not> dle t (Fin 0) \<Longrightarrow>
   iterate r fx t v = Option.bind (iterate r fx (dsub r t (Fin 1)) v) (\<lambda>y. Some (fx y))"
  by (subst iterate.simps) simp

lemma iterate_binary64_count:
  assumes "fl t = t" and "t \<le> 2 ^ 53"
  shows "iterate binary64 fx (Fin t) v = Some ((fx ^^ nat \<lceil>t\<rceil>) v)"
  using assms
proof (induction n \<equiv> "nat \<lceil>t\<rceil>" arbitrary: t)
  case 0
  then have "t \<le> 0" by (simp add: ceiling_le_iff)
  then show ?case using 0 by (simp add: iterate_done)
next
  case (Suc n)
  have "0 < \<lceil>t\<rceil>" using Suc.hyps(2) by linarith
  then have pos: "0 < t" by (simp only: zero_less_ceiling)
  show ?case
  proof (cases "t < 1")
    case True
    have "\<bar>t - 1\<bar> < pow2 0" using True pos by simp
    then have b: "binary64 (t - 1) = Fin (fl (t - 1))" by (rule binary64_fin) simp_all
    have "fl (t - 1) \<le> 0" using True by (intro fl_nonpos) simp
    then have "iterate binary64 fx (Fin (fl (t - 1))) v = Some v" by (intro iterate_done) simp
    moreover have "\<lceil>t\<rceil> = 1" using True pos by (simp add: ceiling_eq_iff)
    ultimately show ?thesis using pos b by (simp add: iterate_step)
  next
    case False
    then have t1: "1 \<le> t" by simp
    have ex: "fl (t - 1) = t - 1" using Suc.prems(1) t1 Suc.prems(2) by (rule fl_sub_one_exact)
    have "\<bar>t - 1\<bar> < 2 ^ 53" using t1 Suc.prems(2) by simp
    then have "\<bar>t - 1\<bar> < pow2 53" using pow2_nat [of 53] by simp
    then have b: "binary64 (t - 1) = Fin (t - 1)" using ex binary64_fin [of "t - 1" 53] by simp
    have n: "n = nat \<lceil>t - 1\<rceil>" using Suc.hyps(2) by simp
    have "iterate binary64 fx (Fin (t - 1)) v = Some ((fx ^^ nat \<lceil>t - 1\<rceil>) v)"
      using n ex Suc.prems(2) by (intro Suc.hyps(1)) simp_all
    then show ?thesis using pos b n Suc.hyps(2) [symmetric] by (simp add: iterate_step)
  qed
qed

lemma binary64_stuck:
  "binary64 (9007199254740996 - 1) = Fin 9007199254740996"
  using binary64_eval [of 53 "9007199254740996 - 1"] by (simp add: pow2_def round_even_def)

lemma iterate_stuck:
  "iterate r fx t v = Some y \<Longrightarrow> \<not> (r = binary64 \<and> t = Fin 9007199254740996)"
proof (induction r fx t v y rule: iterate.raw_induct [rotated 1, consumes 1])
  case (1 iterate r fx times_d val ra)
  show ?case
  proof
    assume a: "r = binary64 \<and> times_d = Fin 9007199254740996"
    then have "iterate binary64 fx (Fin 9007199254740996) val \<bind> (\<lambda>y. Some (fx y)) = Some ra"
      using 1(2) binary64_stuck by simp
    then obtain z where "iterate binary64 fx (Fin 9007199254740996) val = Some z"
      by (cases "iterate binary64 fx (Fin 9007199254740996) val") simp_all
    from 1(1) [OF this] show False by simp
  qed
qed

text \<open>
  Claim C10, as amended.  For every binary64 value \<open>times\<close> up to \<open>2^53\<close>,
  \<open>iterate\<close> returns, and its result is \<open>fx\<close> applied \<open>max(0, ceil(times))\<close>
  times to the value: \<open>times - 1\<close> is computed without rounding error down to
  1, and a last step takes a \<open>times\<close> between 0 and 1 to a value that is not
  positive.
\<close>

theorem iterate_applies_ceiling_times:
  assumes "fl t = t" and "t \<le> 2 ^ 53"
  shows "iterate binary64 fx (Fin t) v = Some ((fx ^^ nat \<lceil>t\<rceil>) v)"
  using assms by (rule iterate_binary64_count)

text \<open>Witness for C10: three times the negation.\<close>

theorem iterate_applies_ceiling_times_witness:
  "fl 3 = 3 \<and> (3::real) \<le> 2 ^ 53 \<and> iterate binary64 dneg (Fin 3) (Fin 1) = Some (Fin (- 1))"
  using iterate_applies_ceiling_times [of 3 dneg "Fin 1"] fl_of_int [of 3]
  by (simp add: numeral_3_eq_3)

text \<open>
  Counterexample to C10 as stated: \<open>times = 2^53 + 4\<close> is finite, but
  \<open>times - 1\<close> rounds back to \<open>times\<close>, so the recursion never reaches
  \<open>times <= 0\<close> and \<open>iterate\<close> does not return.
\<close>

theorem iterate_absorbed_decrement_counterexample:
  "dsub binary64 (Fin (2 ^ 53 + 4)) (Fin 1) = Fin (2 ^ 53 + 4)
   \<and> iterate binary64 (\<lambda>x. x) (Fin (2 ^ 53 + 4)) (Fin 0) = None"
proof -
  have "iterate binary64 (\<lambda>x. x) (Fin 9007199254740996) (Fin 0) = None"
    using iterate_stuck [of binary64 "\<lambda>x. x" "Fin 9007199254740996" "Fin 0"]
    by (cases "iterate binary64 (\<lambda>x. x) (Fin 9007199254740996) (Fin 0)") simp_all
  then show ?thesis using binary64_stuck by simp
qed

section \<open>Properties of the grapher\<close>

subsection \<open>Truncation and the truncating division\<close>

lemma trunc_mono: "x \<le> y \<Longrightarrow> trunc x \<le> trunc y"
proof -
  assume xy: "x \<le> y"
  have a: "\<lfloor>x\<rfloor> \<le> \<lfloor>y\<rfloor>" "\<lceil>x\<rceil> \<le> \<lceil>y\<rceil>" using xy by (simp_all add: floor_mono ceiling_mono)
  have c: "\<not> 0 \<le> x \<Longrightarrow> \<lceil>x\<rceil> \<le> 0" by (simp add: ceiling_le_zero)
  have d: "0 \<le> y \<Longrightarrow> 0 \<le> \<lfloor>y\<rfloor>" by simp
  show ?thesis
  proof (cases "0 \<le> x")
    case True then show ?thesis using xy a by (simp add: trunc_def)
  next
    case False
    show ?thesis
    proof (cases "0 \<le> y")
      case True with False c d have "\<lceil>x\<rceil> \<le> \<lfloor>y\<rfloor>" by linarith
      then show ?thesis using False True by (simp add: trunc_def)
    next
      case F2: False then show ?thesis using False a by (simp add: trunc_def)
    qed
  qed
qed

lemma trunc_abs_less: "\<bar>x\<bar> < of_int n \<Longrightarrow> \<bar>trunc x\<bar> < n"
proof (cases "0 \<le> x")
  case True
  assume "\<bar>x\<bar> < of_int n"
  with True have "\<lfloor>x\<rfloor> < n" "0 \<le> \<lfloor>x\<rfloor>" by (simp_all add: floor_less_iff)
  then show ?thesis using True by (simp add: trunc_def)
next
  case False
  assume "\<bar>x\<bar> < of_int n"
  with False have "- x < of_int n" by simp
  then have "of_int (- n) < x" by simp
  then have "- n < \<lceil>x\<rceil>" by (simp only: less_ceiling_iff)
  moreover have "\<lceil>x\<rceil> \<le> 0" using False by (simp add: ceiling_le_zero)
  ultimately show ?thesis using False by (simp add: trunc_def)
qed

lemma sdiv_trunc: "b \<noteq> 0 \<Longrightarrow> a sdiv b = trunc (of_int a / of_int b)"
proof -
  assume b: "b \<noteq> 0"
  have fl: "\<lfloor>real_of_int \<bar>a\<bar> / real_of_int \<bar>b\<bar>\<rfloor> = \<bar>a\<bar> div \<bar>b\<bar>"
    by (rule floor_divide_of_int_eq)
  consider "0 \<le> a" "0 < b" | "a < 0" "0 < b" | "0 \<le> a" "b < 0" | "a < 0" "b < 0"
    using b by linarith
  then show ?thesis
  proof cases
    case 1
    then have "0 \<le> real_of_int a / real_of_int b" by simp
    then show ?thesis using 1 fl by (simp add: trunc_def signed_divide_int_def sgn_if)
  next
    case 2
    then have n: "real_of_int a / real_of_int b < 0" by (simp add: divide_neg_pos)
    have "real_of_int a / real_of_int b = - (real_of_int \<bar>a\<bar> / real_of_int \<bar>b\<bar>)" using 2 by simp
    then have "\<lceil>real_of_int a / real_of_int b\<rceil> = - (\<bar>a\<bar> div \<bar>b\<bar>)"
      using fl by (simp add: ceiling_def)
    then show ?thesis using 2 n by (simp add: trunc_def signed_divide_int_def sgn_if)
  next
    case 3
    show ?thesis
    proof (cases "a = 0")
      case True then show ?thesis by simp
    next
      case False
      with 3 have n: "real_of_int a / real_of_int b < 0" by (simp add: divide_pos_neg)
      have "real_of_int a / real_of_int b = - (real_of_int \<bar>a\<bar> / real_of_int \<bar>b\<bar>)" using 3 by simp
      then have "\<lceil>real_of_int a / real_of_int b\<rceil> = - (\<bar>a\<bar> div \<bar>b\<bar>)"
        using fl by (simp add: ceiling_def)
      then show ?thesis using 3 False n by (simp add: trunc_def signed_divide_int_def sgn_if)
    qed
  next
    case 4
    then have "0 \<le> real_of_int a / real_of_int b" by (simp add: divide_nonpos_neg)
    moreover have "real_of_int a / real_of_int b = real_of_int \<bar>a\<bar> / real_of_int \<bar>b\<bar>" using 4 by simp
    ultimately have "trunc (real_of_int a / real_of_int b) = \<bar>a\<bar> div \<bar>b\<bar>"
      using fl by (simp only: trunc_def if_True)
    then show ?thesis using 4 by (simp add: signed_divide_int_def sgn_if)
  qed
qed

lemma abs_sdiv: "\<bar>a sdiv b\<bar> = \<bar>a\<bar> div \<bar>b::int\<bar>"
proof (cases "a = 0 \<or> b = 0")
  case True then show ?thesis by auto
next
  case False
  then have "\<bar>sgn a\<bar> = 1" "\<bar>sgn b\<bar> = 1" by (simp_all add: sgn_if)
  moreover have "0 \<le> \<bar>a\<bar> div \<bar>b\<bar>" using False by (simp add: pos_imp_zdiv_nonneg_iff)
  ultimately show ?thesis
    by (simp add: signed_divide_int_def abs_mult)
qed

lemma sdiv_abs_le: "\<bar>a sdiv b\<bar> \<le> \<bar>a::int\<bar>"
proof (cases "b = 0")
  case True then show ?thesis by simp
next
  case False
  then have "1 \<le> \<bar>b\<bar>" by linarith
  then have "\<bar>a\<bar> div \<bar>b\<bar> \<le> \<bar>a\<bar> div 1" by (intro zdiv_mono2) simp_all
  then show ?thesis by (simp add: abs_sdiv)
qed

lemma sdiv_scaled_le:
  assumes "0 \<le> i" "i \<le> w" "0 < w"
  shows "\<bar>(i * b) sdiv w\<bar> \<le> \<bar>b::int\<bar>"
proof -
  have "\<bar>(i * b) sdiv w\<bar> = (i * \<bar>b\<bar>) div w"
    using assms by (simp add: abs_sdiv abs_mult)
  also have "\<dots> \<le> (w * \<bar>b\<bar>) div w"
    using assms by (intro zdiv_mono1 mult_right_mono) simp_all
  also have "\<dots> = \<bar>b\<bar>" using assms by simp
  finally show ?thesis .
qed

lemma sdiv_nonpos: "c \<le> 0 \<Longrightarrow> 0 < d \<Longrightarrow> c sdiv d \<le> (0::int)"
proof -
  assume c: "c \<le> 0" and d: "0 < d"
  have "0 \<le> \<bar>c\<bar> div \<bar>d\<bar>" using d by (simp add: pos_imp_zdiv_nonneg_iff)
  then show ?thesis using c d
    by (cases "c = 0") (simp_all add: signed_divide_int_def sgn_if)
qed

subsection \<open>The coordinate maps\<close>

lemma long_okI: "\<bar>z\<bar> < 2 ^ 63 \<Longrightarrow> long_ok z"
  by (simp add: long_ok_def abs_if split: if_splits)

lemma long_to_int_id: "int_ok z \<Longrightarrow> long_to_int z = z"
  by (simp add: long_to_int_def int_ok_def INT32_MAX_def)

lemma mMap_Some:
  assumes "long_ok (value - lower)" "long_ok (newupper - newlower)"
    "long_ok ((value - lower) * (newupper - newlower))" "long_ok (upper - lower)"
    "upper \<noteq> lower"
    "long_ok ((value - lower) * (newupper - newlower) sdiv (upper - lower))"
    "long_ok ((value - lower) * (newupper - newlower) sdiv (upper - lower) + newlower)"
  shows "mMap value lower upper newlower newupper =
         Some ((value - lower) * (newupper - newlower) sdiv (upper - lower) + newlower)"
  using assms by (simp add: mMap_def long_of_def)

lemma pixelToX_eq:
  assumes X: "mXrange g = (Fin x0, Fin x1)" "\<bar>x0\<bar> < 2 ^ 31" "\<bar>x1\<bar> < 2 ^ 31"
    and W: "1 < mTermWidth g" "mTermWidth g \<le> INT32_MAX"
    and i: "0 \<le> i" "i < mTermWidth g"
  shows "pixelToX r g i =
         Some (r (of_int (i * (trunc x1 - trunc x0) sdiv (mTermWidth g - 1) + trunc x0)))"
proof -
  let ?w = "mTermWidth g - 1"
  have t: "\<bar>trunc x0\<bar> < 2 ^ 31" "\<bar>trunc x1\<bar> < 2 ^ 31"
    using X(2,3) trunc_abs_less [of x0 "2 ^ 31"] trunc_abs_less [of x1 "2 ^ 31"] by simp_all
  then have b: "\<bar>trunc x1 - trunc x0\<bar> < 2 ^ 32" by (simp add: abs_if split: if_splits)
  have i': "\<bar>i\<bar> < 2 ^ 31" using i W by (simp add: INT32_MAX_def)
  have "\<bar>i * (trunc x1 - trunc x0)\<bar> = \<bar>i\<bar> * \<bar>trunc x1 - trunc x0\<bar>" by (rule abs_mult)
  also have "\<dots> < 2 ^ 31 * 2 ^ 32"
    using i' b by (intro mult_strict_mono') simp_all
  finally have c: "\<bar>i * (trunc x1 - trunc x0)\<bar> < 2 ^ 63" by simp
  have q: "\<bar>i * (trunc x1 - trunc x0) sdiv ?w\<bar> \<le> \<bar>i * (trunc x1 - trunc x0)\<bar>"
    by (rule sdiv_abs_le)
  have q': "\<bar>i * (trunc x1 - trunc x0) sdiv ?w\<bar> < 2 ^ 62 + 2 ^ 62" using q c by simp
  have m: "mMap i 0 ?w (trunc x0) (trunc x1) =
           Some ((i - 0) * (trunc x1 - trunc x0) sdiv (?w - 0) + trunc x0)"
  proof (rule mMap_Some)
    show "long_ok (i - 0)" using i' by (intro long_okI) simp
    show "long_ok (trunc x1 - trunc x0)" using b by (intro long_okI) simp
    show "long_ok ((i - 0) * (trunc x1 - trunc x0))" using c by (intro long_okI) simp
    show "long_ok (?w - 0)" using W by (simp add: long_ok_def INT32_MAX_def)
    show "?w \<noteq> 0" using W by simp
    show "long_ok ((i - 0) * (trunc x1 - trunc x0) sdiv (?w - 0))" using q c by (intro long_okI) simp
    have "\<bar>i * (trunc x1 - trunc x0) sdiv ?w\<bar> \<le> \<bar>trunc x1 - trunc x0\<bar>"
      using i W by (intro sdiv_scaled_le) simp_all
    then show "long_ok ((i - 0) * (trunc x1 - trunc x0) sdiv (?w - 0) + trunc x0)"
      using b t by (intro long_okI) simp
  qed
  have "int_ok ?w" using W by (simp add: int_ok_def INT32_MAX_def)
  moreover have "long_ok (trunc x0)" "long_ok (trunc x1)" using t by (simp_all add: long_okI)
  ultimately show ?thesis
    using m X(1) by (simp add: pixelToX_def int_of_def long_of_def double_to_long_def)
qed

lemma yToPixel_eq:
  assumes Y: "mYrange g = (Fin y0, Fin y1)" "\<bar>y0\<bar> < 2 ^ 31" "\<bar>y1\<bar> < 2 ^ 31"
      "trunc y0 < trunc y1"
    and H: "0 < mTermHeight g" "mTermHeight g \<le> INT32_MAX"
    and v: "y0 \<le> v" "v \<le> y1"
  shows "yToPixel g (Fin v) =
           Some ((trunc v - trunc y0) * (0 - mTermHeight g) sdiv (trunc y1 - trunc y0)
                 + mTermHeight g)"
    and "0 \<le> (trunc v - trunc y0) * (0 - mTermHeight g) sdiv (trunc y1 - trunc y0)
                 + mTermHeight g"
    and "(trunc v - trunc y0) * (0 - mTermHeight g) sdiv (trunc y1 - trunc y0)
                 + mTermHeight g \<le> mTermHeight g"
proof -
  let ?h = "mTermHeight g" and ?a = "trunc v - trunc y0" and ?d = "trunc y1 - trunc y0"
  let ?q = "?a * (0 - ?h) sdiv ?d"
  have t: "\<bar>trunc y0\<bar> < 2 ^ 31" "\<bar>trunc y1\<bar> < 2 ^ 31"
    using Y(2,3) trunc_abs_less [of y0 "2 ^ 31"] trunc_abs_less [of y1 "2 ^ 31"] by simp_all
  have tv: "trunc y0 \<le> trunc v" "trunc v \<le> trunc y1"
    using v by (simp_all add: trunc_mono)
  have a: "0 \<le> ?a" "?a \<le> ?d" "0 < ?d" using tv Y(4) by simp_all
  have d: "?d < 2 ^ 32" using t by (simp add: abs_if split: if_splits)
  have h: "\<bar>0 - ?h\<bar> < 2 ^ 31" using H by (simp add: INT32_MAX_def)
  have "\<bar>?a * (0 - ?h)\<bar> = \<bar>?a\<bar> * \<bar>0 - ?h\<bar>" by (rule abs_mult)
  also have "\<dots> < 2 ^ 32 * 2 ^ 31"
    using a d h by (intro mult_strict_mono') simp_all
  finally have c: "\<bar>?a * (0 - ?h)\<bar> < 2 ^ 63" by simp
  have qh: "\<bar>?q\<bar> \<le> \<bar>0 - ?h\<bar>" using a by (intro sdiv_scaled_le) simp_all
  have "?a * (0 - ?h) \<le> 0" using a H by (simp add: mult_nonneg_nonpos)
  then have q0: "?q \<le> 0" using a by (intro sdiv_nonpos) simp_all
  show lo: "0 \<le> ?q + ?h" using qh H by simp
  show hi: "?q + ?h \<le> ?h" using q0 by simp
  have m: "mMap (trunc v) (trunc y0) (trunc y1) ?h 0 = Some (?q + ?h)"
  proof (rule mMap_Some)
    show "long_ok ?a" using a d by (intro long_okI) simp
    show "long_ok (0 - ?h)" using h by (intro long_okI) simp
    show "long_ok (?a * (0 - ?h))" using c by (intro long_okI) simp
    show "long_ok ?d" using a d by (intro long_okI) simp
    show "trunc y1 \<noteq> trunc y0" using Y(4) by simp
    show "long_ok ?q" using qh h by (intro long_okI) simp
    show "long_ok (?q + ?h)" using lo hi H by (simp add: long_ok_def INT32_MAX_def)
  qed
  have "\<bar>trunc v\<bar> < 2 ^ 31" using tv t by (simp add: abs_if split: if_splits)
  then have "long_ok (trunc v)" "long_ok (trunc y0)" "long_ok (trunc y1)"
    using t by (simp_all add: long_okI)
  moreover have "int_ok (?q + ?h)" using lo hi H by (simp add: int_ok_def)
  ultimately show "yToPixel g (Fin v) = Some (?q + ?h)"
    using m Y(1) by (simp add: yToPixel_def long_of_def double_to_long_def long_to_int_id)
qed

lemma yToPixel_lower_end:
  assumes Y: "mYrange g = (Fin y0, Fin y1)" "\<bar>y0\<bar> < 2 ^ 31" "\<bar>y1\<bar> < 2 ^ 31"
      "trunc y0 < trunc y1"
    and H: "0 < mTermHeight g" "mTermHeight g \<le> INT32_MAX"
  shows "yToPixel g (Fin y0) = Some (mTermHeight g)"
proof -
  have "y0 \<le> y1" using Y(4) trunc_mono [of y1 y0] by linarith
  then show ?thesis using yToPixel_eq(1) [OF Y H, of y0] by simp
qed

lemma sdiv_antimono_scaled:
  assumes "a \<le> a'" "0 \<le> (h::int)" "0 < d"
  shows "a' * (0 - h) sdiv d \<le> a * (0 - h) sdiv d"
proof -
  have d: "d \<noteq> 0" using assms(3) by simp
  have "a' * (0 - h) \<le> a * (0 - h)" using assms(1,2) by (simp add: mult_right_mono)
  then have "(of_int (a' * (0 - h)) :: real) \<le> of_int (a * (0 - h))" by (simp only: of_int_le_iff)
  then have "(of_int (a' * (0 - h)) :: real) / of_int d \<le> of_int (a * (0 - h)) / of_int d"
    using assms(3) by (simp add: divide_right_mono)
  then show ?thesis by (simp only: sdiv_trunc [OF d] trunc_mono)
qed

lemma sdiv_mult_self: "d \<noteq> 0 \<Longrightarrow> d * c sdiv d = (c::int)"
  by (simp add: sdiv_trunc)

lemma sdiv_mult_self': "d \<noteq> 0 \<Longrightarrow> c * d sdiv d = (c::int)"
  by (simp add: sdiv_trunc)

lemma sdiv_zero_left: "d \<noteq> 0 \<Longrightarrow> 0 sdiv d = (0::int)"
  by (simp add: sdiv_trunc)

text \<open>
  Claim C8, as amended.  The coordinate maps of \<open>display\<close> are computed by
  \<open>mMap\<close> in integer arithmetic, where \<open>trunc\<close> drops the fraction.  For bounds of
  magnitude below \<open>2^31\<close>, a width above 1 and a positive height: every column
  \<open>0 \<le> i < width\<close> is sent to
  \<open>trunc x_min + trunc (i * (trunc x_max - trunc x_min) / (width - 1))\<close>, so column 0
  to \<open>trunc x_min\<close> and column \<open>width - 1\<close> to \<open>trunc x_max\<close>; when the truncated
  ends of the range differ, the row of a value \<open>v\<close> of the range is the row of
  \<open>trunc v\<close>, the vertical direction is inverted (of two values of the range the
  larger one gets the smaller or the same row), and \<open>y_max\<close> is sent to row 0.
\<close>

theorem coordinate_maps_truncate:
  assumes "1 < mTermWidth g" and "mTermWidth g \<le> INT32_MAX"
    and "0 < mTermHeight g" and "mTermHeight g \<le> INT32_MAX"
    and "mXrange g = (Fin x0, Fin x1)" and "\<bar>x0\<bar> < 2 ^ 31" and "\<bar>x1\<bar> < 2 ^ 31"
    and "mYrange g = (Fin y0, Fin y1)" and "\<bar>y0\<bar> < 2 ^ 31" and "\<bar>y1\<bar> < 2 ^ 31"
    and "trunc y0 < trunc y1"
    and "0 \<le> i" and "i < mTermWidth g"
    and "y0 \<le> v" and "v \<le> v'" and "v' \<le> y1"
  shows "pixelToX r g i =
           Some (r (of_int (trunc x0 +
              trunc (of_int (i * (trunc x1 - trunc x0)) / of_int (mTermWidth g - 1)))))
       \<and> pixelToX r g 0 = Some (r (of_int (trunc x0)))
       \<and> pixelToX r g (mTermWidth g - 1) = Some (r (of_int (trunc x1)))
       \<and> yToPixel g (Fin v) = yToPixel g (Fin (of_int (trunc v)))
       \<and> (\<exists>row row'. yToPixel g (Fin v) = Some row \<and> yToPixel g (Fin v') = Some row'
             \<and> row' \<le> row)
       \<and> yToPixel g (Fin y1) = Some 0"
proof -
  let ?h = "mTermHeight g" and ?d = "trunc y1 - trunc y0" and ?w = "mTermWidth g - 1"
  have w: "?w \<noteq> 0" and d: "?d \<noteq> 0" and d0: "0 < ?d"
    using assms(1,11) by simp_all
  have X: "pixelToX r g j =
          Some (r (of_int (j * (trunc x1 - trunc x0) sdiv ?w + trunc x0)))"
    if "0 \<le> j" "j < mTermWidth g" for j
    using assms(5,6,7,1,2) that by (rule pixelToX_eq)
  have c1: "pixelToX r g i =
           Some (r (of_int (trunc x0 +
              trunc (of_int (i * (trunc x1 - trunc x0)) / of_int ?w))))"
    using X [OF assms(12,13)] by (simp only: sdiv_trunc [OF w] add.commute)
  have c2: "pixelToX r g 0 = Some (r (of_int (trunc x0)))"
    using X [of 0] assms(1) w by (simp add: sdiv_zero_left)
  have c3: "pixelToX r g ?w = Some (r (of_int (trunc x1)))"
    using X [of ?w] assms(1) by (simp add: sdiv_mult_self [OF w])
  have c4: "yToPixel g (Fin v) = yToPixel g (Fin (of_int (trunc v)))"
    by (simp add: yToPixel_def double_to_long_def)
  have y01: "y0 \<le> y1" using assms(14,15,16) by simp
  have Y: "yToPixel g (Fin u) =
      Some ((trunc u - trunc y0) * (0 - ?h) sdiv ?d + ?h)" if "y0 \<le> u" "u \<le> y1" for u
    using assms(8,9,10,11,3,4) that by (rule yToPixel_eq(1))
  have rv: "yToPixel g (Fin v) = Some ((trunc v - trunc y0) * (0 - ?h) sdiv ?d + ?h)"
    using Y [of v] assms(14,15,16) by simp
  have rv': "yToPixel g (Fin v') = Some ((trunc v' - trunc y0) * (0 - ?h) sdiv ?d + ?h)"
    using Y [of v'] assms(14,15,16) by simp
  have "trunc v - trunc y0 \<le> trunc v' - trunc y0"
    using trunc_mono [OF assms(15)] by simp
  then have "(trunc v' - trunc y0) * (0 - ?h) sdiv ?d \<le> (trunc v - trunc y0) * (0 - ?h) sdiv ?d"
    using assms(3) d0 by (intro sdiv_antimono_scaled) simp_all
  then have c5: "\<exists>row row'. yToPixel g (Fin v) = Some row \<and> yToPixel g (Fin v') = Some row'
             \<and> row' \<le> row"
    using rv rv' by simp
  have c6: "yToPixel g (Fin y1) = Some 0"
    using Y [of y1] y01 by (simp only: sdiv_mult_self [OF d]) simp
  from c1 c2 c3 c4 c5 c6 show ?thesis by blast
qed

text \<open>
  Witness for C8: the default grapher, column 1 and the values 2.5 and 7.
\<close>

theorem coordinate_maps_truncate_witness:
  "pixelToX binary64 Grapher_default 1 = Some (Fin (- 10))
   \<and> pixelToX binary64 Grapher_default 0 = Some (Fin (- 10))
   \<and> pixelToX binary64 Grapher_default 79 = Some (Fin 10)
   \<and> yToPixel Grapher_default (Fin (5 / 2)) = Some 10
   \<and> yToPixel Grapher_default (Fin 2) = Some 10
   \<and> yToPixel Grapher_default (Fin 7) = Some 4
   \<and> yToPixel Grapher_default (Fin 10) = Some 0"
  using coordinate_maps_truncate [of Grapher_default "- 10" 10 "- 10" 10 1 "5 / 2" 7 binary64]
    binary64_of_int [of "- 10"] binary64_of_int [of 10]
  by (simp add: Grapher_default_def INT32_MAX_def trunc_def yToPixel_def mMap_def long_of_def
      long_ok_def int_of_def int_ok_def double_to_long_def signed_divide_int_def long_to_int_def)


text \<open>
  Counterexample to C8 as stated: with the default grapher, column 1 is sent to
  \<open>-10\<close>, while the affine map over the real numbers sends it to \<open>-10 + 20 / 79\<close>.
\<close>

theorem pixelToX_affine_counterexample:
  "pixelToX binary64 Grapher_default 1 = Some (Fin (- 10))
   \<and> (- 10 :: real) \<noteq> column_to_x_spec (- 10) 10 80 1"
  using binary64_of_int [of "- 10"]
  by (simp add: column_to_x_spec_def pixelToX_def Grapher_default_def mMap_def long_of_def
      long_ok_def int_of_def int_ok_def INT32_MAX_def double_to_long_def signed_divide_int_def)

subsection \<open>display\<close>

text \<open>
  Claim C9 fails on the code.  With the default grapher (24 rows, range from
  \<open>-10\<close> to \<open>10\<close>) a sample equal to \<open>y_min = -10\<close> passes the range test and
  is sent to row 24, one below the last row 23, so \<open>display\<close> writes outside of
  the screen.
\<close>

theorem display_writes_outside_screen:
  "yToPixel Grapher_default (Fin (- 10)) = Some (mTermHeight Grapher_default)
   \<and> display binary64 (addFunction Grapher_default (\<lambda>x. Fin (- 10)) CHR ''#'') = None"
  using binary64_of_int [of "- 10"]
  by (simp add: display_def addFunction_def plot_column_def put_def upto.simps pixelToX_def
      xToPixel_def yToPixel_def Grapher_default_def mMap_def long_of_def long_ok_def int_of_def
      int_ok_def INT32_MAX_def double_to_long_def signed_divide_int_def long_to_int_def)

end
